theory Spec2Isabelle
  imports Main "HOL-Library.Word" "HOL-Library.Signed_Division"
begin

unbundle bit_operations_syntax

section \<open>Machine integers\<close>

text \<open>
  The integer types of \<^verbatim>\<open>scale.h\<close> are two's complement words. Addition, subtraction,
  multiplication and the left shift wrap around, the right shift of a signed value is
  arithmetic, a conversion to a narrower type keeps the low bits, and the comparison of
  two signed values is the signed one (\<open><s\<close>, \<open>\<le>s\<close>). The C++ operator \<^verbatim>\<open>/\<close> truncates
  towards zero; a zero divisor has no result and is an error value of the model. Where
  C++ leaves a signed overflow undefined the model wraps around, as the hardware does; a
  theorem that needs a result without overflow states the range of its arguments.
\<close>

type_synonym int16_t = "16 word"
type_synonym uint16_t = "16 word"
type_synonym int32_t = "32 word"
type_synonym int64_t = "64 word"

datatype error = DivisionByZero

definition divide :: "'a::len word \<Rightarrow> 'a word \<Rightarrow> error + 'a word" where
  "divide x y = (if y = 0 then Inl DivisionByZero else Inr (word_of_int (sint x sdiv sint y)))"

section \<open>The fixed-point number \<^verbatim>\<open>fixed<32,15>\<close>\<close>

text \<open>
  \<^verbatim>\<open>typedef fixed<32,15> fixed32_t\<close>: a struct with the single member \<^verbatim>\<open>value_bits\<close>
  of type \<^verbatim>\<open>int32_t\<close>; \<^verbatim>\<open>intinfo<32>::next::int_t\<close> is \<^verbatim>\<open>int64_t\<close>.
\<close>

datatype fixed32_t = Fixed (value_bits: int32_t)

abbreviation precision :: nat where
  "precision \<equiv> 15"

text \<open>The conversion constructor \<^verbatim>\<open>fixed(int_t n) : value_bits(n << precision)\<close>.\<close>

definition fixed :: "int32_t \<Rightarrow> fixed32_t" where
  "fixed n = Fixed (push_bit precision n)"

text \<open>The conversion operator \<^verbatim>\<open>operator int_t() { return value_bits >> precision; }\<close>.\<close>

definition to_int :: "fixed32_t \<Rightarrow> int32_t" where
  "to_int f = signed_drop_bit precision (value_bits f)"

text \<open>\<^verbatim>\<open>operator+=\<close> and \<^verbatim>\<open>operator-=\<close> (and \<^verbatim>\<open>operator+\<close>, \<^verbatim>\<open>operator-\<close>, which call them).\<close>

definition add_fixed :: "fixed32_t \<Rightarrow> fixed32_t \<Rightarrow> fixed32_t" where
  "add_fixed l r = Fixed (value_bits l + value_bits r)"

definition sub_fixed :: "fixed32_t \<Rightarrow> fixed32_t \<Rightarrow> fixed32_t" where
  "sub_fixed l r = Fixed (value_bits l - value_bits r)"

text \<open>\<^verbatim>\<open>operator*=\<close>: the product is taken in 64 bits, shifted and stored back in 32 bits.\<close>

definition mul_fixed :: "fixed32_t \<Rightarrow> fixed32_t \<Rightarrow> fixed32_t" where
  "mul_fixed l r =
     (let n = (scast (value_bits l) :: int64_t) * scast (value_bits r)
      in Fixed (ucast (signed_drop_bit precision n)))"

text \<open>
  \<^verbatim>\<open>operator/=\<close>: the dividend is widened to 64 bits and shifted left, the divisor is
  promoted to 64 bits by the division, the quotient is stored back in 32 bits.
\<close>

definition div_fixed :: "fixed32_t \<Rightarrow> fixed32_t \<Rightarrow> error + fixed32_t" where
  "div_fixed l r =
     (case divide (push_bit precision (scast (value_bits l) :: int64_t)) (scast (value_bits r)) of
        Inl e \<Rightarrow> Inl e
      | Inr q \<Rightarrow> Inr (Fixed (ucast q)))"

text \<open>
  The comparisons \<^verbatim>\<open>a < b\<close>, \<^verbatim>\<open>a > b\<close> and \<^verbatim>\<open>a == b\<close> of two \<^verbatim>\<open>fixed32_t\<close>: the struct declares
  no comparison operator, so both operands go through \<^verbatim>\<open>operator int_t\<close> and the built-in
  comparison of \<^verbatim>\<open>int32_t\<close> is applied to the results.
\<close>

definition less_fixed :: "fixed32_t \<Rightarrow> fixed32_t \<Rightarrow> bool" where
  "less_fixed x y = (to_int x <s to_int y)"

definition eq_fixed :: "fixed32_t \<Rightarrow> fixed32_t \<Rightarrow> bool" where
  "eq_fixed x y = (to_int x = to_int y)"

text \<open>\<^verbatim>\<open>static constexpr int32_t SCALE = (int32_t(0x7fff) << 15) / 9999\<close>.\<close>

definition SCALE :: int32_t where
  "SCALE = word_of_int (sint (push_bit 15 (0x7fff :: int32_t)) sdiv 9999)"

text \<open>\<^verbatim>\<open>fixed32_t fixed32(int16_t i, uint16_t d)\<close>.\<close>

definition fixed32 :: "int16_t \<Rightarrow> uint16_t \<Rightarrow> fixed32_t" where
  "fixed32 i d =
     (let f = fixed (scast i);
          d = (if d < 10 then d * 1000
               else if d < 100 then d * 100
               else if d < 1000 then d * 10
               else d)
      in Fixed (value_bits f + signed_drop_bit 15 ((ucast d :: int32_t) * SCALE)))"

section \<open>Points and areas\<close>

text \<open>
  \<^verbatim>\<open>Point<type_t,dimensions>\<close> holds the array \<^verbatim>\<open>e[dimensions]\<close> and is read and written by
  index: a list with one element per axis. \<^verbatim>\<open>Area<type_t,dimensions>\<close> is the pair of the
  start point \<^verbatim>\<open>a\<close> and the end point \<^verbatim>\<open>b\<close>.
\<close>

type_synonym 'a Point = "'a list"

record 'a Area =
  area_a :: "'a Point"
  area_b :: "'a Point"

text \<open>\<^verbatim>\<open>internal::swap(r.a[i], r.b[i])\<close> on the two end points of an area.\<close>

definition swap_axis :: "nat \<Rightarrow> 'a Area \<Rightarrow> 'a Area" where
  "swap_axis i r = \<lparr>area_a = (area_a r)[i := area_b r ! i], area_b = (area_b r)[i := area_a r ! i]\<rparr>"

text \<open>
  \<^verbatim>\<open>internal::min\<close> and \<^verbatim>\<open>internal::max\<close>, instantiated at \<^verbatim>\<open>int32_t\<close> and at \<^verbatim>\<open>fixed32_t\<close>:
  \<^verbatim>\<open>return a < b ? a : b\<close> and \<^verbatim>\<open>return a > b ? a : b\<close>.
\<close>

definition min_int32 :: "int32_t \<Rightarrow> int32_t \<Rightarrow> int32_t" where
  "min_int32 x y = (if x <s y then x else y)"

definition max_int32 :: "int32_t \<Rightarrow> int32_t \<Rightarrow> int32_t" where
  "max_int32 x y = (if y <s x then x else y)"

definition min_fixed :: "fixed32_t \<Rightarrow> fixed32_t \<Rightarrow> fixed32_t" where
  "min_fixed x y = (if less_fixed x y then x else y)"

definition max_fixed :: "fixed32_t \<Rightarrow> fixed32_t \<Rightarrow> fixed32_t" where
  "max_fixed x y = (if less_fixed y x then x else y)"

section \<open>The recursive iterator\<close>

text \<open>
  The iterator works on the two index points \<^verbatim>\<open>dst_index\<close> and \<^verbatim>\<open>src_index\<close>, which every
  level receives by reference, and calls the processor, whose effect is a change of the
  state the processor owns. The state passed from one iteration to the next is the two
  points and the processor's state.
\<close>

record 'p iter_state =
  dst_index :: "int32_t Point"
  src_index :: "fixed32_t Point"
  processor_state :: 'p

type_synonym 'p processor = "int32_t Point \<Rightarrow> fixed32_t Point \<Rightarrow> 'p \<Rightarrow> 'p"

text \<open>
  The loop of \<^verbatim>\<open>iterator::operator()\<close> on the axis \<open>index\<close>:
  \<^verbatim>\<open>for (dst_index[index] = dst_area.a[index], src_index[index] = src_start[index];
       dst_index[index] < dst_area.b[index];
       ++dst_index[index], src_index[index] += src_delta[index]) body\<close>.
  The loop is the only writer of the entries \<open>index\<close> of the two points (the levels below
  write the entries below \<open>index\<close>, the processor takes both points as const references), so
  \<open>i\<close> and \<open>s\<close> carry the two entries and are stored into the points where the source writes
  them: on entry and after every step.
\<close>

function iterate_axis ::
  "('p iter_state \<Rightarrow> 'p iter_state) \<Rightarrow> nat \<Rightarrow> int32_t \<Rightarrow> fixed32_t \<Rightarrow> int32_t \<Rightarrow> fixed32_t \<Rightarrow>
   'p iter_state \<Rightarrow> 'p iter_state" where
  "iterate_axis body index i s b d st =
     (let st1 = st\<lparr>dst_index := (dst_index st)[index := i], src_index := (src_index st)[index := s]\<rparr>
      in if i <s b then iterate_axis body index (i + 1) (add_fixed s d) b d (body st1) else st1)"
  by pat_completeness auto

lemma sint_succ: "i <s (b :: int32_t) \<Longrightarrow> sint (i + 1) = sint i + 1"
proof -
  assume "i <s b"
  then have "sint i < sint b" by (simp add: word_sless_alt)
  moreover have "sint b < 2 ^ 31" using sint_lt [of b] by simp
  moreover have "- (2 ^ 31) \<le> sint i" using sint_ge [of i] by simp
  ultimately have "signed_take_bit 31 (sint i + 1) = sint i + 1"
    by (intro signed_take_bit_int_eq_self) auto
  then show ?thesis by (simp add: sint_word_ariths)
qed

termination iterate_axis
  by (relation "measure (\<lambda>(body, index, i, s, b, d, st). nat (sint b - sint i))")
     (auto simp: sint_succ word_sless_alt)

declare iterate_axis.simps [simp del]

text \<open>
  \<^verbatim>\<open>iterator<index,dimensions,processor_t>\<close>: the level \<open>0\<close> calls the processor in its loop,
  the level \<open>index\<close> calls the level \<open>index - 1\<close>.
\<close>

fun iterator ::
  "nat \<Rightarrow> int32_t Area \<Rightarrow> fixed32_t Point \<Rightarrow> fixed32_t Point \<Rightarrow> 'p processor \<Rightarrow>
   'p iter_state \<Rightarrow> 'p iter_state" where
  "iterator 0 area start delta processor st =
     iterate_axis
       (\<lambda>st. st\<lparr>processor_state := processor (dst_index st) (src_index st) (processor_state st)\<rparr>)
       0 (area_a area ! 0) (start ! 0) (area_b area ! 0) (delta ! 0) st"
| "iterator (Suc index) area start delta processor st =
     iterate_axis (iterator index area start delta processor)
       (Suc index) (area_a area ! Suc index) (start ! Suc index) (area_b area ! Suc index)
       (delta ! Suc index) st"

section \<open>The example processor \<^verbatim>\<open>write\<close>\<close>


section \<open>\<^verbatim>\<open>scale\<close>\<close>

text \<open>The local variables of \<^verbatim>\<open>scale\<close> that its third loop reads and writes.\<close>

record locals =
  dst_area :: "int32_t Area"
  src_area :: "fixed32_t Area"
  src_delta :: "fixed32_t Point"
  src_start :: "fixed32_t Point"

text \<open>The first loop: \<^verbatim>\<open>if (dst_mask.a[i] > dst_mask.b[i]) swap(dst_mask.a[i], dst_mask.b[i])\<close>.\<close>

definition normalize_mask :: "nat \<Rightarrow> int32_t Area \<Rightarrow> int32_t Area" where
  "normalize_mask dimensions dst_mask =
     fold (\<lambda>i m. if area_b m ! i <s area_a m ! i then swap_axis i m else m) [0..<dimensions] dst_mask"

text \<open>
  The second loop returns from \<^verbatim>\<open>scale\<close> when \<^verbatim>\<open>dst_area.a[i] == dst_area.b[i]\<close> or
  \<^verbatim>\<open>src_area.a[i] == src_area.b[i]\<close> on some axis.
\<close>

definition degenerate :: "nat \<Rightarrow> int32_t Area \<Rightarrow> fixed32_t Area \<Rightarrow> bool" where
  "degenerate dimensions dst src =
     list_ex (\<lambda>i. area_a dst ! i = area_b dst ! i \<or> eq_fixed (area_a src ! i) (area_b src ! i))
       [0..<dimensions]"

text \<open>
  The statements of one round of the third loop, each a function of the locals.
  \<^verbatim>\<open>if (dst_area.a[i] > dst_area.b[i]) { swap(dst_area.a[i], dst_area.b[i]);
  swap(src_area.a[i], src_area.b[i]); }\<close>:
\<close>

definition reverse_axis :: "nat \<Rightarrow> locals \<Rightarrow> locals" where
  "reverse_axis i L =
     (if area_b (dst_area L) ! i <s area_a (dst_area L) ! i
      then L\<lparr>dst_area := swap_axis i (dst_area L), src_area := swap_axis i (src_area L)\<rparr>
      else L)"

text \<open>
  The test of \<^verbatim>\<open>if (dst_area.b[i] < dst_mask.a[i] || dst_area.a[i] >= dst_mask.b[i]) { return; }\<close>.
\<close>

definition outside_mask :: "int32_t Area \<Rightarrow> nat \<Rightarrow> locals \<Rightarrow> bool" where
  "outside_mask dst_mask i L \<longleftrightarrow>
     area_b (dst_area L) ! i <s area_a dst_mask ! i \<or> area_b dst_mask ! i \<le>s area_a (dst_area L) ! i"

text \<open>
  \<^verbatim>\<open>src_delta[i].value_bits = (src_area.b[i].value_bits - src_area.a[i].value_bits) /
  (dst_area.b[i] - dst_area.a[i])\<close>, a division of two \<^verbatim>\<open>int32_t\<close>.
\<close>

definition set_delta :: "nat \<Rightarrow> locals \<Rightarrow> error + locals" where
  "set_delta i L =
     (case divide (value_bits (area_b (src_area L) ! i) - value_bits (area_a (src_area L) ! i))
                  (area_b (dst_area L) ! i - area_a (dst_area L) ! i) of
        Inl e \<Rightarrow> Inl e
      | Inr q \<Rightarrow> Inr (L\<lparr>src_delta := (src_delta L)[i := Fixed q]\<rparr>))"

text \<open>
  \<^verbatim>\<open>src_start[i] = src_delta[i].value_bits >= 0 ? internal::min(src_area.a[i], src_area.b[i])
  : (internal::max(src_area.a[i], src_area.b[i]) + src_delta[i])\<close>.
\<close>

definition set_start :: "nat \<Rightarrow> locals \<Rightarrow> locals" where
  "set_start i L =
     L\<lparr>src_start := (src_start L)
         [i := (if 0 \<le>s value_bits (src_delta L ! i)
                then min_fixed (area_a (src_area L) ! i) (area_b (src_area L) ! i)
                else add_fixed (max_fixed (area_a (src_area L) ! i) (area_b (src_area L) ! i))
                               (src_delta L ! i))]\<rparr>"

text \<open>
  \<^verbatim>\<open>if (dst_area.a[i] < dst_mask.a[i]) { src_start[i].value_bits += src_delta[i].value_bits *
  (dst_mask.a[i] - dst_area.a[i]); dst_area.a[i] = dst_mask.a[i]; }\<close>.
\<close>

definition clip_start :: "int32_t Area \<Rightarrow> nat \<Rightarrow> locals \<Rightarrow> locals" where
  "clip_start dst_mask i L =
     (if area_a (dst_area L) ! i <s area_a dst_mask ! i
      then L\<lparr>src_start := (src_start L)
               [i := Fixed (value_bits (src_start L ! i) +
                            value_bits (src_delta L ! i) *
                              (area_a dst_mask ! i - area_a (dst_area L) ! i))],
             dst_area := (dst_area L)\<lparr>area_a := (area_a (dst_area L))[i := area_a dst_mask ! i]\<rparr>\<rparr>
      else L)"

text \<open>\<^verbatim>\<open>if (dst_area.b[i] >= dst_mask.b[i]) { dst_area.b[i] = dst_mask.b[i]; }\<close>.\<close>

definition clip_end :: "int32_t Area \<Rightarrow> nat \<Rightarrow> locals \<Rightarrow> locals" where
  "clip_end dst_mask i L =
     (if area_b dst_mask ! i \<le>s area_b (dst_area L) ! i
      then L\<lparr>dst_area := (dst_area L)\<lparr>area_b := (area_b (dst_area L))[i := area_b dst_mask ! i]\<rparr>\<rparr>
      else L)"

text \<open>
  One round of the third loop. \<open>Inr None\<close> is the \<^verbatim>\<open>return\<close> of the mask test,
  \<open>Inr (Some L)\<close> goes on to the next axis with the locals \<open>L\<close>.
\<close>

definition scale_axis :: "int32_t Area \<Rightarrow> nat \<Rightarrow> locals \<Rightarrow> error + locals option" where
  "scale_axis dst_mask i L0 =
     (let L1 = reverse_axis i L0
      in if outside_mask dst_mask i L1 then Inr None
         else case set_delta i L1 of
                Inl e \<Rightarrow> Inl e
              | Inr L2 \<Rightarrow> Inr (Some (clip_end dst_mask i (clip_start dst_mask i (set_start i L2)))))"

text \<open>The third loop, over the axes in the order given, left by the first error or return.\<close>

fun scale_axes :: "int32_t Area \<Rightarrow> nat list \<Rightarrow> locals \<Rightarrow> error + locals option" where
  "scale_axes dst_mask [] L = Inr (Some L)"
| "scale_axes dst_mask (i # axes) L =
     (case scale_axis dst_mask i L of
        Inl e \<Rightarrow> Inl e
      | Inr None \<Rightarrow> Inr None
      | Inr (Some L') \<Rightarrow> scale_axes dst_mask axes L')"

text \<open>
  \<^verbatim>\<open>scale\<close> up to the end of its third loop: the locals the iterator is then called with,
  or \<open>None\<close> when \<^verbatim>\<open>scale\<close> has returned in its second or third loop. The points
  \<^verbatim>\<open>src_delta\<close> and \<^verbatim>\<open>src_start\<close> are declared without an initial value and every entry is
  written before it is read; they start filled with zeros here.
\<close>

definition scale_locals ::
  "nat \<Rightarrow> int32_t Area \<Rightarrow> fixed32_t Area \<Rightarrow> int32_t Area \<Rightarrow> error + locals option" where
  "scale_locals dimensions dst src dst_mask =
     (let dst_mask = normalize_mask dimensions dst_mask
      in if degenerate dimensions dst src then Inr None
         else scale_axes dst_mask [0..<dimensions]
                \<lparr>dst_area = dst, src_area = src,
                 src_delta = replicate dimensions (Fixed 0),
                 src_start = replicate dimensions (Fixed 0)\<rparr>)"

text \<open>
  \<^verbatim>\<open>scale<processor_t,dimensions>(dst_area, src_area, processor, dst_mask)\<close>, started with
  the processor's state \<open>p\<close>; the result is the processor's state when \<^verbatim>\<open>scale\<close> returns.
  The points \<^verbatim>\<open>dst_index\<close> and \<^verbatim>\<open>src_index\<close> are declared without an initial value as
  well and start filled with zeros.
\<close>

definition scale ::
  "nat \<Rightarrow> int32_t Area \<Rightarrow> fixed32_t Area \<Rightarrow> 'p processor \<Rightarrow> int32_t Area \<Rightarrow> 'p \<Rightarrow> error + 'p" where
  "scale dimensions dst src processor dst_mask p =
     (case scale_locals dimensions dst src dst_mask of
        Inl e \<Rightarrow> Inl e
      | Inr None \<Rightarrow> Inr p
      | Inr (Some L) \<Rightarrow>
          Inr (processor_state
                (iterator (dimensions - 1) (dst_area L) (src_start L) (src_delta L) processor
                   \<lparr>dst_index = replicate dimensions 0,
                    src_index = replicate dimensions (Fixed 0),
                    processor_state = p\<rparr>)))"

text \<open>
  The processor that records its calls: the state is the list of the pairs of a destination
  index and a source index it was called with, in the order of the calls.
\<close>

definition record_call :: "(int32_t Point \<times> fixed32_t Point) list processor" where
  "record_call dst src calls = calls @ [(dst, src)]"

definition scale_calls ::
  "nat \<Rightarrow> int32_t Area \<Rightarrow> fixed32_t Area \<Rightarrow> int32_t Area \<Rightarrow>
   error + (int32_t Point \<times> fixed32_t Point) list" where
  "scale_calls dimensions dst src dst_mask = scale dimensions dst src record_call dst_mask []"

section \<open>The calls of the iterator\<close>

text \<open>
  The loop on one axis visits the destination indices from \<open>a\<close> up to \<open>b\<close> (not reached) and
  pairs the index \<open>j\<close> with the source index \<open>s + (j - a) * d\<close>.
\<close>

definition axis_steps :: "int32_t \<Rightarrow> int32_t \<Rightarrow> fixed32_t \<Rightarrow> fixed32_t \<Rightarrow> (int32_t \<times> fixed32_t) list" where
  "axis_steps a b s d =
     map (\<lambda>j. (word_of_int j, Fixed (value_bits s + (word_of_int j - a) * value_bits d)))
       [sint a..sint b - 1]"

lemma axis_steps_done: "\<not> i <s b \<Longrightarrow> axis_steps i b s d = []"
  by (simp add: axis_steps_def word_sless_alt)

lemma axis_steps_step:
  assumes "i <s b"
  shows "axis_steps i b s d = (i, s) # axis_steps (i + 1) b (add_fixed s d) d"
proof -
  have "sint i \<le> sint b - 1"
    using assms by (simp add: word_sless_alt)
  then have "[sint i..sint b - 1] = sint i # [sint (i + 1)..sint b - 1]"
    by (simp add: upto_rec1 sint_succ [OF assms])
  then show ?thesis
    by (simp add: axis_steps_def add_fixed_def algebra_simps)
qed

text \<open>
  \<open>enter index (x, y)\<close> stores the destination index \<open>x\<close> and the source index \<open>y\<close> of the
  axis \<open>index\<close> into the two points, as the head and the step of the loop do.
\<close>

definition enter :: "nat \<Rightarrow> int32_t \<times> fixed32_t \<Rightarrow> 'p iter_state \<Rightarrow> 'p iter_state" where
  "enter index xy st =
     st\<lparr>dst_index := (dst_index st)[index := fst xy], src_index := (src_index st)[index := snd xy]\<rparr>"

lemma iterate_axis_fold:
  "\<exists>xy. iterate_axis body index i s b d st =
     enter index xy (fold (\<lambda>xy st. body (enter index xy st)) (axis_steps i b s d) st)"
proof (induction body index i s b d st rule: iterate_axis.induct)
  case (1 body index i s b d st)
  show ?case
  proof (cases "i <s b")
    case True
    from "1.IH" [OF refl True] show ?thesis
      by (subst iterate_axis.simps) (simp add: True axis_steps_step [OF True] enter_def)
  next
    case False
    have "iterate_axis body index i s b d st = enter index (i, s) st"
      by (subst iterate_axis.simps) (simp add: False enter_def)
    then show ?thesis
      by (auto simp: axis_steps_done [OF False])
  qed
qed

text \<open>
  Two points agree from the axis \<open>k\<close> on when they have the same length and the same entries
  at \<open>k\<close> and above. A level of the iterator writes the entries up to its own axis and
  leaves the rest as they are.
\<close>

definition agree_from :: "nat \<Rightarrow> 'a list \<Rightarrow> 'a list \<Rightarrow> bool" where
  "agree_from k xs ys \<longleftrightarrow> length xs = length ys \<and> drop k xs = drop k ys"

lemma agree_from_refl [simp]: "agree_from k xs xs"
  by (simp add: agree_from_def)

lemma agree_from_trans: "agree_from k xs ys \<Longrightarrow> agree_from k ys zs \<Longrightarrow> agree_from k xs zs"
  by (simp add: agree_from_def)

lemma agree_from_0: "agree_from 0 xs ys \<Longrightarrow> xs = ys"
  by (simp add: agree_from_def)

lemma agree_from_below: "i < k \<Longrightarrow> agree_from k (xs[i := x]) xs"
  by (simp add: agree_from_def)

lemma drop_update_same: "drop k (xs[k := x]) = (if k < length xs then x # drop (Suc k) xs else [])"
  by (simp add: upd_conv_take_nth_drop)

lemma agree_from_update: "agree_from (Suc k) xs ys \<Longrightarrow> agree_from k (xs[k := x]) (ys[k := x])"
  by (simp add: agree_from_def drop_update_same)

lemma agree_from_Suc: "agree_from k xs ys \<Longrightarrow> agree_from (Suc k) xs ys"
proof -
  have "drop (Suc k) zs = tl (drop k zs)" for zs :: "'a list"
    by (simp add: drop_Suc tl_drop)
  then show "agree_from k xs ys \<Longrightarrow> agree_from (Suc k) xs ys"
    by (simp add: agree_from_def)
qed

text \<open>
  The effect of the level \<open>j\<close> of the iterator on the processor's state, as a function of
  the points it is entered with: the nested iteration over the steps of the axes \<open>j\<close>
  down to \<open>0\<close>.
\<close>

fun iter_pure ::
  "nat \<Rightarrow> (nat \<Rightarrow> (int32_t \<times> fixed32_t) list) \<Rightarrow> 'p processor \<Rightarrow>
   int32_t Point \<times> fixed32_t Point \<Rightarrow> 'p \<Rightarrow> 'p" where
  "iter_pure 0 steps P ds p = fold (\<lambda>xy. P ((fst ds)[0 := fst xy]) ((snd ds)[0 := snd xy])) (steps 0) p"
| "iter_pure (Suc j) steps P ds p =
     fold (\<lambda>xy. iter_pure j steps P ((fst ds)[Suc j := fst xy], (snd ds)[Suc j := snd xy]))
       (steps (Suc j)) p"

lemma iter_pure_agree:
  "agree_from (Suc j) d d' \<Longrightarrow> agree_from (Suc j) s s' \<Longrightarrow>
   iter_pure j steps P (d, s) = iter_pure j steps P (d', s')"
proof (induction j arbitrary: d d' s s')
  case 0
  have "d[0 := x] = d'[0 := x]" for x
    using 0(1) by (intro agree_from_0 agree_from_update)
  moreover have "s[0 := y] = s'[0 := y]" for y
    using 0(2) by (intro agree_from_0 agree_from_update)
  ultimately show ?case by (simp add: fun_eq_iff)
next
  case (Suc j)
  have "iter_pure j steps P (d[Suc j := x], s[Suc j := y]) =
        iter_pure j steps P (d'[Suc j := x], s'[Suc j := y])" for x y
    using Suc.prems by (intro Suc.IH agree_from_update)
  then show ?case by (intro ext) simp
qed

lemma fold_body_sim:
  assumes body: "\<And>st. processor_state (body st) = g (dst_index st, src_index st) (processor_state st) \<and>
                  agree_from index (dst_index (body st)) (dst_index st) \<and>
                  agree_from index (src_index (body st)) (src_index st)"
    and g: "\<And>d d' s s'. agree_from index d d' \<Longrightarrow> agree_from index s s' \<Longrightarrow> g (d, s) = g (d', s')"
  shows "processor_state (fold (\<lambda>xy st. body (enter index xy st)) xs st) =
           fold (\<lambda>xy. g ((dst_index st)[index := fst xy], (src_index st)[index := snd xy])) xs
             (processor_state st) \<and>
         agree_from (Suc index) (dst_index (fold (\<lambda>xy st. body (enter index xy st)) xs st)) (dst_index st) \<and>
         agree_from (Suc index) (src_index (fold (\<lambda>xy st. body (enter index xy st)) xs st)) (src_index st)"
proof (induction xs arbitrary: st)
  case Nil
  show ?case by simp
next
  case (Cons xy xs)
  let ?st1 = "body (enter index xy st)"
  have d1: "agree_from (Suc index) (dst_index ?st1) (dst_index st)"
    using body [of "enter index xy st"]
    by (auto simp: enter_def intro: agree_from_trans agree_from_Suc agree_from_below)
  have s1: "agree_from (Suc index) (src_index ?st1) (src_index st)"
    using body [of "enter index xy st"]
    by (auto simp: enter_def intro: agree_from_trans agree_from_Suc agree_from_below)
  have p1: "processor_state ?st1 =
            g ((dst_index st)[index := fst xy], (src_index st)[index := snd xy]) (processor_state st)"
    using body [of "enter index xy st"] by (simp add: enter_def)
  have same: "g ((dst_index ?st1)[index := x], (src_index ?st1)[index := y]) =
              g ((dst_index st)[index := x], (src_index st)[index := y])" for x y
    by (intro g agree_from_update d1 s1)
  show ?case
    using Cons.IH [of ?st1] d1 s1
    by (auto simp: p1 same intro: agree_from_trans)
qed

text \<open>The steps of the axis \<open>k\<close> for the arguments the iterator is called with.\<close>

definition steps_of ::
  "int32_t Area \<Rightarrow> fixed32_t Point \<Rightarrow> fixed32_t Point \<Rightarrow> nat \<Rightarrow> (int32_t \<times> fixed32_t) list" where
  "steps_of area start delta k = axis_steps (area_a area ! k) (area_b area ! k) (start ! k) (delta ! k)"

lemma iterator_sim:
  "processor_state (iterator j area start delta P st) =
     iter_pure j (steps_of area start delta) P (dst_index st, src_index st) (processor_state st) \<and>
   agree_from (Suc j) (dst_index (iterator j area start delta P st)) (dst_index st) \<and>
   agree_from (Suc j) (src_index (iterator j area start delta P st)) (src_index st)"
proof (induction j arbitrary: st)
  case 0
  let ?body = "\<lambda>st :: 'a iter_state.
     st\<lparr>processor_state := P (dst_index st) (src_index st) (processor_state st)\<rparr>"
  have "agree_from 0 d d' \<Longrightarrow> agree_from 0 s s' \<Longrightarrow> (\<lambda>(d, s). P d s) (d, s) = (\<lambda>(d, s). P d s) (d', s')"
    for d d' s s' by (auto dest: agree_from_0)
  from fold_body_sim [where body = ?body and g = "\<lambda>(d, s). P d s" and index = 0, OF _ this]
  have sim: "processor_state (fold (\<lambda>xy st. ?body (enter 0 xy st)) xs st) =
           fold (\<lambda>xy. P ((dst_index st)[0 := fst xy]) ((src_index st)[0 := snd xy])) xs
             (processor_state st) \<and>
         agree_from (Suc 0) (dst_index (fold (\<lambda>xy st. ?body (enter 0 xy st)) xs st)) (dst_index st) \<and>
         agree_from (Suc 0) (src_index (fold (\<lambda>xy st. ?body (enter 0 xy st)) xs st)) (src_index st)"
    for xs by simp
  obtain xy where "iterator 0 area start delta P st =
      enter 0 xy (fold (\<lambda>xy st. ?body (enter 0 xy st)) (steps_of area start delta 0) st)"
    using iterate_axis_fold [of ?body 0 "area_a area ! 0" "start ! 0" "area_b area ! 0" "delta ! 0" st]
    unfolding steps_of_def iterator.simps by blast
  with sim [of "steps_of area start delta 0"] show ?case
    by (auto simp: enter_def intro: agree_from_trans agree_from_below)
next
  case (Suc j)
  from fold_body_sim [where body = "iterator j area start delta P"
      and g = "iter_pure j (steps_of area start delta) P" and index = "Suc j",
      OF Suc.IH iter_pure_agree]
  have sim: "processor_state (fold (\<lambda>xy st. iterator j area start delta P (enter (Suc j) xy st)) xs st) =
           fold (\<lambda>xy. iter_pure j (steps_of area start delta) P
                  ((dst_index st)[Suc j := fst xy], (src_index st)[Suc j := snd xy])) xs
             (processor_state st) \<and>
         agree_from (Suc (Suc j))
           (dst_index (fold (\<lambda>xy st. iterator j area start delta P (enter (Suc j) xy st)) xs st))
           (dst_index st) \<and>
         agree_from (Suc (Suc j))
           (src_index (fold (\<lambda>xy st. iterator j area start delta P (enter (Suc j) xy st)) xs st))
           (src_index st)"
    for xs by simp
  obtain xy where "iterator (Suc j) area start delta P st =
      enter (Suc j) xy (fold (\<lambda>xy st. iterator j area start delta P (enter (Suc j) xy st))
        (steps_of area start delta (Suc j)) st)"
    using iterate_axis_fold [of "iterator j area start delta P" "Suc j" "area_a area ! Suc j"
        "start ! Suc j" "area_b area ! Suc j" "delta ! Suc j" st]
    unfolding steps_of_def iterator.simps by blast
  with sim [of "steps_of area start delta (Suc j)"] show ?case
    by (auto simp: enter_def intro: agree_from_trans agree_from_below)
qed


text \<open>
  The pairs of a destination point and a source point the level \<open>j\<close> calls the processor
  with, in the order of the calls; \<open>call\<close> applies a processor to such a pair.
\<close>

fun grid ::
  "nat \<Rightarrow> (nat \<Rightarrow> (int32_t \<times> fixed32_t) list) \<Rightarrow> int32_t Point \<times> fixed32_t Point \<Rightarrow>
   (int32_t Point \<times> fixed32_t Point) list" where
  "grid 0 steps ds = map (\<lambda>xy. ((fst ds)[0 := fst xy], (snd ds)[0 := snd xy])) (steps 0)"
| "grid (Suc j) steps ds =
     concat (map (\<lambda>xy. grid j steps ((fst ds)[Suc j := fst xy], (snd ds)[Suc j := snd xy]))
       (steps (Suc j)))"

definition call :: "'p processor \<Rightarrow> int32_t Point \<times> fixed32_t Point \<Rightarrow> 'p \<Rightarrow> 'p" where
  "call P ds = P (fst ds) (snd ds)"

lemma fold_concat_map: "fold f (concat (map g xs)) p = fold (\<lambda>x. fold f (g x)) xs p"
  by (induction xs arbitrary: p) simp_all

lemma iter_pure_grid: "iter_pure j steps P ds p = fold (call P) (grid j steps ds) p"
proof (induction j arbitrary: ds p)
  case 0
  show ?case by (simp add: fold_map call_def comp_def)
next
  case (Suc j)
  have "iter_pure j steps P ds' = fold (call P) (grid j steps ds')" for ds'
    by (intro ext) (rule Suc.IH)
  then show ?case by (simp add: fold_concat_map)
qed

lemma iterator_calls:
  "processor_state (iterator j area start delta P st) =
     fold (call P) (grid j (steps_of area start delta) (dst_index st, src_index st))
       (processor_state st)"
  using iterator_sim [of j area start delta P st] by (simp add: iter_pure_grid)

lemma fold_record_call: "fold (call record_call) cs acc = acc @ cs"
  by (induction cs arbitrary: acc) (simp_all add: call_def record_call_def)

section \<open>The locals of \<^verbatim>\<open>scale\<close>, axis by axis\<close>

text \<open>
  A round of the third loop reads and writes the entries \<open>i\<close> of the locals only. The
  entries of one axis are collected in an \<open>axis\<close>, and every statement of the round is a
  function on it.
\<close>

datatype axis =
  Axis (ax_a: int32_t) (ax_b: int32_t) (ax_sa: fixed32_t) (ax_sb: fixed32_t)
       (ax_delta: fixed32_t) (ax_start: fixed32_t)

text \<open>The entries of the axis \<open>i\<close> in the locals, and locals whose points all have \<open>n\<close> axes.\<close>

definition view :: "locals \<Rightarrow> nat \<Rightarrow> axis" where
  "view L i =
     Axis (area_a (dst_area L) ! i) (area_b (dst_area L) ! i)
          (area_a (src_area L) ! i) (area_b (src_area L) ! i) (src_delta L ! i) (src_start L ! i)"

definition wf_locals :: "nat \<Rightarrow> locals \<Rightarrow> bool" where
  "wf_locals n L \<longleftrightarrow>
     length (area_a (dst_area L)) = n \<and> length (area_b (dst_area L)) = n \<and>
     length (area_a (src_area L)) = n \<and> length (area_b (src_area L)) = n \<and>
     length (src_delta L) = n \<and> length (src_start L) = n"

text \<open>
  The statements of a round as functions on one axis: the swap of a reversed destination,
  the mask test, the division for \<open>delta\<close> (its divisor is not zero where it is used), the
  source start, and the two clips.
\<close>

fun reverse_t :: "axis \<Rightarrow> axis" where
  "reverse_t (Axis a b sa sb d s) = (if b <s a then Axis b a sb sa d s else Axis a b sa sb d s)"

fun outside_t :: "int32_t \<Rightarrow> int32_t \<Rightarrow> axis \<Rightarrow> bool" where
  "outside_t ma mb (Axis a b sa sb d s) \<longleftrightarrow> b <s ma \<or> mb \<le>s a"

fun delta_t :: "axis \<Rightarrow> axis" where
  "delta_t (Axis a b sa sb d s) =
     Axis a b sa sb (Fixed (word_of_int (sint (value_bits sb - value_bits sa) sdiv sint (b - a)))) s"

fun start_t :: "axis \<Rightarrow> axis" where
  "start_t (Axis a b sa sb d s) =
     Axis a b sa sb d
       (if 0 \<le>s value_bits d then min_fixed sa sb else add_fixed (max_fixed sa sb) d)"

fun clip_start_t :: "int32_t \<Rightarrow> axis \<Rightarrow> axis" where
  "clip_start_t ma (Axis a b sa sb d s) =
     (if a <s ma then Axis ma b sa sb d (Fixed (value_bits s + value_bits d * (ma - a)))
      else Axis a b sa sb d s)"

fun clip_end_t :: "int32_t \<Rightarrow> axis \<Rightarrow> axis" where
  "clip_end_t mb (Axis a b sa sb d s) =
     (if mb \<le>s b then Axis a mb sa sb d s else Axis a b sa sb d s)"

text \<open>
  The round as a whole, for the mask \<open>[ma, mb)\<close>: \<open>None\<close> when the axis is outside the mask.
\<close>

definition axis_plan :: "int32_t \<Rightarrow> int32_t \<Rightarrow> axis \<Rightarrow> axis option" where
  "axis_plan ma mb ax =
     (if outside_t ma mb (reverse_t ax) then None
      else Some (clip_end_t mb (clip_start_t ma (start_t (delta_t (reverse_t ax))))))"

lemma wf_reverse_axis [simp]: "wf_locals n L \<Longrightarrow> wf_locals n (reverse_axis i L)"
  by (simp add: wf_locals_def reverse_axis_def swap_axis_def)

lemma view_reverse_axis:
  "wf_locals n L \<Longrightarrow> i < n \<Longrightarrow>
   view (reverse_axis i L) k = (if k = i then reverse_t (view L i) else view L k)"
  by (simp add: wf_locals_def reverse_axis_def swap_axis_def view_def)

lemma outside_mask_view:
  "outside_mask m i L \<longleftrightarrow> outside_t (area_a m ! i) (area_b m ! i) (view L i)"
  by (simp add: outside_mask_def view_def)

lemma set_delta_view:
  assumes "wf_locals n L" "i < n" "ax_a (view L i) \<noteq> ax_b (view L i)"
  shows "\<exists>L'. set_delta i L = Inr L' \<and> wf_locals n L' \<and>
           (\<forall>k. view L' k = (if k = i then delta_t (view L i) else view L k))"
proof -
  have "area_b (dst_area L) ! i - area_a (dst_area L) ! i \<noteq> 0"
    using assms(3) by (auto simp: view_def)
  then show ?thesis
    using assms(1,2) by (simp add: set_delta_def divide_def wf_locals_def view_def)
qed

lemma wf_set_start [simp]: "wf_locals n L \<Longrightarrow> wf_locals n (set_start i L)"
  by (simp add: wf_locals_def set_start_def)

lemma view_set_start:
  "wf_locals n L \<Longrightarrow> i < n \<Longrightarrow>
   view (set_start i L) k = (if k = i then start_t (view L i) else view L k)"
  by (simp add: wf_locals_def set_start_def view_def)

lemma wf_clip_start [simp]: "wf_locals n L \<Longrightarrow> wf_locals n (clip_start m i L)"
  by (simp add: wf_locals_def clip_start_def)

lemma view_clip_start:
  "wf_locals n L \<Longrightarrow> i < n \<Longrightarrow>
   view (clip_start m i L) k = (if k = i then clip_start_t (area_a m ! i) (view L i) else view L k)"
  by (simp add: wf_locals_def clip_start_def view_def)

lemma wf_clip_end [simp]: "wf_locals n L \<Longrightarrow> wf_locals n (clip_end m i L)"
  by (simp add: wf_locals_def clip_end_def)

lemma view_clip_end:
  "wf_locals n L \<Longrightarrow> i < n \<Longrightarrow>
   view (clip_end m i L) k = (if k = i then clip_end_t (area_b m ! i) (view L i) else view L k)"
  by (simp add: wf_locals_def clip_end_def view_def)

lemma reverse_t_distinct: "ax_a ax \<noteq> ax_b ax \<Longrightarrow> ax_a (reverse_t ax) \<noteq> ax_b (reverse_t ax)"
  by (cases ax) auto

lemma scale_axis_view:
  assumes "wf_locals n L" "i < n" "ax_a (view L i) \<noteq> ax_b (view L i)"
  shows "case axis_plan (area_a m ! i) (area_b m ! i) (view L i) of
           None \<Rightarrow> scale_axis m i L = Inr None
         | Some ax \<Rightarrow>
             (\<exists>L'. scale_axis m i L = Inr (Some L') \<and> wf_locals n L' \<and>
                (\<forall>k. view L' k = (if k = i then ax else view L k)))"
proof (cases "outside_t (area_a m ! i) (area_b m ! i) (reverse_t (view L i))")
  note views = view_reverse_axis [where n = n] view_set_start [where n = n]
    view_clip_start [where n = n] view_clip_end [where n = n]
  case True
  then show ?thesis
    using assms(1,2) by (simp add: axis_plan_def scale_axis_def outside_mask_view views)
next
  note views = view_reverse_axis [where n = n] view_set_start [where n = n]
    view_clip_start [where n = n] view_clip_end [where n = n]
  case False
  have "ax_a (view (reverse_axis i L) i) \<noteq> ax_b (view (reverse_axis i L) i)"
    using assms by (simp add: reverse_t_distinct views)
  from set_delta_view [OF wf_reverse_axis [OF assms(1)] assms(2) this]
  obtain L2 where L2: "set_delta i (reverse_axis i L) = Inr L2" "wf_locals n L2"
    "\<And>k. view L2 k = (if k = i then delta_t (view (reverse_axis i L) i) else view (reverse_axis i L) k)"
    by blast
  show ?thesis
    using False assms(1,2) L2
    by (simp add: axis_plan_def scale_axis_def outside_mask_view views)
qed


lemma scale_axes_view:
  assumes "wf_locals n L" "distinct axes"
    and "\<forall>i\<in>set axes. i < n \<and> ax_a (view L i) \<noteq> ax_b (view L i)"
  shows "if \<exists>i\<in>set axes. axis_plan (area_a m ! i) (area_b m ! i) (view L i) = None
         then scale_axes m axes L = Inr None
         else \<exists>L'. scale_axes m axes L = Inr (Some L') \<and> wf_locals n L' \<and>
                (\<forall>k. view L' k =
                   (if k \<in> set axes then the (axis_plan (area_a m ! k) (area_b m ! k) (view L k))
                    else view L k))"
  using assms
proof (induction axes arbitrary: L)
  case Nil
  then show ?case by simp
next
  case (Cons i axes)
  have i: "i < n" "ax_a (view L i) \<noteq> ax_b (view L i)" "i \<notin> set axes"
    using Cons.prems by auto
  show ?case
  proof (cases "axis_plan (area_a m ! i) (area_b m ! i) (view L i)")
    case None
    with scale_axis_view [OF Cons.prems(1) i(1,2), of m] show ?thesis
      by simp
  next
    case (Some ax)
    with scale_axis_view [OF Cons.prems(1) i(1,2), of m]
    obtain L1 where L1: "scale_axis m i L = Inr (Some L1)" "wf_locals n L1"
      "\<And>k. view L1 k = (if k = i then ax else view L k)"
      by auto
    have same: "view L1 k = view L k" if "k \<in> set axes" for k
      using that i(3) by (auto simp: L1(3))
    have "\<forall>k\<in>set axes. k < n \<and> ax_a (view L1 k) \<noteq> ax_b (view L1 k)"
      using Cons.prems(3) by (simp add: same)
    from Cons.IH [OF L1(2) _ this] Cons.prems(2)
    have IH: "if \<exists>k\<in>set axes. axis_plan (area_a m ! k) (area_b m ! k) (view L k) = None
         then scale_axes m axes L1 = Inr None
         else \<exists>L'. scale_axes m axes L1 = Inr (Some L') \<and> wf_locals n L' \<and>
                (\<forall>k. view L' k =
                   (if k \<in> set axes then the (axis_plan (area_a m ! k) (area_b m ! k) (view L k))
                    else view L1 k))"
      by (simp add: same cong: if_cong)
    show ?thesis
    proof (cases "\<exists>k\<in>set axes. axis_plan (area_a m ! k) (area_b m ! k) (view L k) = None")
      case True
      with IH show ?thesis by (simp add: L1(1))
    next
      case False
      with IH obtain L' where L': "scale_axes m axes L1 = Inr (Some L')" "wf_locals n L'"
        "\<And>k. view L' k =
           (if k \<in> set axes then the (axis_plan (area_a m ! k) (area_b m ! k) (view L k))
            else view L1 k)"
        by auto
      have "\<not> (\<exists>k\<in>set (i # axes). axis_plan (area_a m ! k) (area_b m ! k) (view L k) = None)"
        using False Some by simp
      moreover have "scale_axes m (i # axes) L = Inr (Some L')"
        by (simp add: L1(1) L'(1))
      moreover have "view L' k =
           (if k \<in> set (i # axes) then the (axis_plan (area_a m ! k) (area_b m ! k) (view L k))
            else view L k)" for k
        using i(3) by (auto simp: L'(3) L1(3) Some)
      ultimately show ?thesis
        using L'(2) by (simp only: if_False) blast
    qed
  qed
qed

text \<open>The body of the first loop of \<^verbatim>\<open>scale\<close>.\<close>

definition mask_step :: "nat \<Rightarrow> int32_t Area \<Rightarrow> int32_t Area" where
  "mask_step i m = (if area_b m ! i <s area_a m ! i then swap_axis i m else m)"

lemma mask_step_nth:
  assumes "length (area_a m) = n" "length (area_b m) = n" "i < n"
  shows "length (area_a (mask_step i m)) = n" "length (area_b (mask_step i m)) = n"
    "area_a (mask_step i m) ! k = (if k = i then min_int32 (area_a m ! i) (area_b m ! i) else area_a m ! k)"
    "area_b (mask_step i m) ! k = (if k = i then max_int32 (area_a m ! i) (area_b m ! i) else area_b m ! k)"
  using assms
  by (auto simp: mask_step_def swap_axis_def min_int32_def max_int32_def nth_list_update)

lemma fold_normalize:
  assumes "length (area_a m) = n" "length (area_b m) = n" "distinct axes" "\<forall>i\<in>set axes. i < n"
  shows "length (area_a (fold mask_step axes m)) = n \<and>
         length (area_b (fold mask_step axes m)) = n \<and>
         (\<forall>k. area_a (fold mask_step axes m) ! k =
               (if k \<in> set axes then min_int32 (area_a m ! k) (area_b m ! k) else area_a m ! k) \<and>
              area_b (fold mask_step axes m) ! k =
               (if k \<in> set axes then max_int32 (area_a m ! k) (area_b m ! k) else area_b m ! k))"
  using assms
proof (induction axes arbitrary: m)
  case Nil
  then show ?case by simp
next
  case (Cons i axes)
  have i: "i < n" "i \<notin> set axes" using Cons.prems by auto
  note step = mask_step_nth [OF Cons.prems(1,2) i(1)]
  from Cons.IH [OF step(1,2)] Cons.prems
  have IH: "length (area_a (fold mask_step axes (mask_step i m))) = n"
    "length (area_b (fold mask_step axes (mask_step i m))) = n"
    "\<And>k. area_a (fold mask_step axes (mask_step i m)) ! k =
       (if k \<in> set axes then min_int32 (area_a (mask_step i m) ! k) (area_b (mask_step i m) ! k)
        else area_a (mask_step i m) ! k)"
    "\<And>k. area_b (fold mask_step axes (mask_step i m)) ! k =
       (if k \<in> set axes then max_int32 (area_a (mask_step i m) ! k) (area_b (mask_step i m) ! k)
        else area_b (mask_step i m) ! k)"
    by simp_all
  show ?case
    using i(2) by (auto simp: IH step(3,4))
qed

lemma normalize_mask_nth:
  assumes "length (area_a m) = n" "length (area_b m) = n" "i < n"
  shows "area_a (normalize_mask n m) ! i = min_int32 (area_a m ! i) (area_b m ! i)"
    and "area_b (normalize_mask n m) ! i = max_int32 (area_a m ! i) (area_b m ! i)"
  using fold_normalize [OF assms(1,2), of "[0..<n]"] assms(3)
  by (simp_all add: normalize_mask_def mask_step_def [abs_def])


lemma grid_cong: "(\<And>k. k \<le> j \<Longrightarrow> steps k = steps' k) \<Longrightarrow> grid j steps ds = grid j steps' ds"
proof (induction j arbitrary: ds)
  case 0
  then show ?case by simp
next
  case (Suc j)
  have "grid j steps ds' = grid j steps' ds'" for ds'
    using Suc.prems by (intro Suc.IH) simp
  moreover have "steps (Suc j) = steps' (Suc j)"
    using Suc.prems by simp
  ultimately show ?case by simp
qed

lemma grid_empty: "k \<le> j \<Longrightarrow> steps k = [] \<Longrightarrow> grid j steps ds = []"
proof (induction j arbitrary: ds)
  case 0
  then show ?case by simp
next
  case (Suc j)
  show ?case
  proof (cases "k = Suc j")
    case True
    with Suc.prems show ?thesis by simp
  next
    case False
    with Suc.prems have "grid j steps ds' = []" for ds'
      by (intro Suc.IH) simp_all
    then show ?thesis by simp
  qed
qed

text \<open>
  The steps the iterator takes on an axis after the third loop, and the steps of the axis
  \<open>i\<close> as a function of the arguments of \<^verbatim>\<open>scale\<close>. \<open>wf_args n dst src m\<close> says that
  the three areas of a call have \<open>n\<close> axes each, with \<open>n > 0\<close>: the template parameter
  \<^verbatim>\<open>dimensions\<close> of the source, which sizes the arrays of all the points.
\<close>

definition steps_at :: "axis \<Rightarrow> (int32_t \<times> fixed32_t) list" where
  "steps_at ax = axis_steps (ax_a ax) (ax_b ax) (ax_start ax) (ax_delta ax)"

definition plan_steps ::
  "int32_t Area \<Rightarrow> fixed32_t Area \<Rightarrow> int32_t Area \<Rightarrow> nat \<Rightarrow> (int32_t \<times> fixed32_t) list" where
  "plan_steps dst src m i =
     (case axis_plan (min_int32 (area_a m ! i) (area_b m ! i)) (max_int32 (area_a m ! i) (area_b m ! i))
             (Axis (area_a dst ! i) (area_b dst ! i) (area_a src ! i) (area_b src ! i)
                (Fixed 0) (Fixed 0)) of
        None \<Rightarrow> []
      | Some ax \<Rightarrow> steps_at ax)"

definition wf_args :: "nat \<Rightarrow> int32_t Area \<Rightarrow> fixed32_t Area \<Rightarrow> int32_t Area \<Rightarrow> bool" where
  "wf_args n dst src m \<longleftrightarrow>
     0 < n \<and> length (area_a dst) = n \<and> length (area_b dst) = n \<and>
     length (area_a src) = n \<and> length (area_b src) = n \<and>
     length (area_a m) = n \<and> length (area_b m) = n"

lemma degenerate_iff:
  "degenerate n dst src \<longleftrightarrow>
     (\<exists>i<n. area_a dst ! i = area_b dst ! i \<or> eq_fixed (area_a src ! i) (area_b src ! i))"
  by (auto simp: degenerate_def list_ex_iff)

lemma scale_closed:
  assumes "wf_args n dst src m"
  shows "scale n dst src P m p =
     Inr (fold (call P)
            (if degenerate n dst src then []
             else grid (n - 1) (plan_steps dst src m) (replicate n 0, replicate n (Fixed 0))) p)"
proof (cases "degenerate n dst src")
  case True
  then show ?thesis by (simp add: scale_def scale_locals_def)
next
  case False
  define L0 where "L0 = \<lparr>dst_area = dst, src_area = src,
     src_delta = replicate n (Fixed 0), src_start = replicate n (Fixed 0)\<rparr>"
  define nm where "nm = normalize_mask n m"
  have len: "0 < n" "length (area_a m) = n" "length (area_b m) = n"
    using assms by (simp_all add: wf_args_def)
  have wf: "wf_locals n L0"
    using assms by (simp add: wf_args_def wf_locals_def L0_def)
  have v0: "view L0 k = Axis (area_a dst ! k) (area_b dst ! k) (area_a src ! k) (area_b src ! k)
                (Fixed 0) (Fixed 0)" if "k < n" for k
    using that by (simp add: view_def L0_def)
  have ne: "\<forall>i\<in>set [0..<n]. i < n \<and> ax_a (view L0 i) \<noteq> ax_b (view L0 i)"
    using False by (auto simp: degenerate_iff v0)
  have plan: "plan_steps dst src m k =
      (case axis_plan (area_a nm ! k) (area_b nm ! k) (view L0 k) of
         None \<Rightarrow> [] | Some ax \<Rightarrow> steps_at ax)" if "k < n" for k
    using that by (simp add: plan_steps_def nm_def normalize_mask_nth [OF len(2,3)] v0)
  have sc: "scale n dst src P m p =
      (case scale_axes nm [0..<n] L0 of
         Inl e \<Rightarrow> Inl e
       | Inr None \<Rightarrow> Inr p
       | Inr (Some L) \<Rightarrow>
           Inr (processor_state
                 (iterator (n - 1) (dst_area L) (src_start L) (src_delta L) P
                    \<lparr>dst_index = replicate n 0, src_index = replicate n (Fixed 0),
                     processor_state = p\<rparr>)))"
    using False by (simp add: scale_def scale_locals_def L0_def nm_def)
  show ?thesis
  proof (cases "\<exists>i\<in>set [0..<n]. axis_plan (area_a nm ! i) (area_b nm ! i) (view L0 i) = None")
    case True
    then obtain i where i: "i < n" "axis_plan (area_a nm ! i) (area_b nm ! i) (view L0 i) = None"
      by auto
    have "scale_axes nm [0..<n] L0 = Inr None"
      using scale_axes_view [OF wf distinct_upt ne, of nm] True by simp
    moreover have "grid (n - 1) (plan_steps dst src m) ds = []" for ds
      using i by (intro grid_empty [of i]) (simp_all add: plan)
    ultimately show ?thesis
      using False by (simp add: sc)
  next
    case none: False
    with scale_axes_view [OF wf distinct_upt ne, of nm]
    obtain L where L: "scale_axes nm [0..<n] L0 = Inr (Some L)"
      "\<And>k. view L k =
         (if k \<in> set [0..<n] then the (axis_plan (area_a nm ! k) (area_b nm ! k) (view L0 k))
          else view L0 k)"
      by (simp only: if_False) blast
    have "steps_of (dst_area L) (src_start L) (src_delta L) k = plan_steps dst src m k"
      if "k \<le> n - 1" for k
    proof -
      have k: "k < n" using that len(1) by simp
      then have "axis_plan (area_a nm ! k) (area_b nm ! k) (view L0 k) \<noteq> None"
        using none by auto
      then obtain ax where ax: "axis_plan (area_a nm ! k) (area_b nm ! k) (view L0 k) = Some ax"
        by blast
      have "view L k = ax" using k by (simp add: L(2) ax)
      then have "steps_of (dst_area L) (src_start L) (src_delta L) k = steps_at ax"
        by (auto simp: steps_of_def steps_at_def view_def)
      then show ?thesis by (simp add: plan [OF k] ax)
    qed
    then have "grid (n - 1) (steps_of (dst_area L) (src_start L) (src_delta L)) ds =
               grid (n - 1) (plan_steps dst src m) ds" for ds
      by (rule grid_cong)
    then show ?thesis
      using False by (simp add: sc L(1) iterator_calls)
  qed
qed

lemma scale_calls_closed:
  assumes "wf_args n dst src m"
  shows "scale_calls n dst src m =
     Inr (if degenerate n dst src then []
          else grid (n - 1) (plan_steps dst src m) (replicate n 0, replicate n (Fixed 0)))"
  by (simp add: scale_calls_def scale_closed [OF assms] fold_record_call)

lemma scale_by_calls:
  assumes "wf_args n dst src m"
  shows "\<exists>cs. scale_calls n dst src m = Inr cs \<and> scale n dst src P m p = Inr (fold (call P) cs p)"
  by (simp add: scale_calls_closed [OF assms] scale_closed [OF assms])

section \<open>Calls without effect\<close>

lemma reverse_t_ends:
  "ax_a (reverse_t ax) = min_int32 (ax_a ax) (ax_b ax)"
  "ax_b (reverse_t ax) = max_int32 (ax_a ax) (ax_b ax)"
  by (cases ax; auto simp: min_int32_def max_int32_def word_sless_alt dest: signed_word_eqI)+

lemma axis_plan_outside:
  assumes "max_int32 a b <s ma \<or> mb \<le>s min_int32 a b"
  shows "axis_plan ma mb (Axis a b sa sb d s) = None"
proof -
  have "outside_t ma mb (reverse_t (Axis a b sa sb d s))"
    using assms reverse_t_ends [of "Axis a b sa sb d s"]
    by (cases "reverse_t (Axis a b sa sb d s)") simp
  then show ?thesis by (simp add: axis_plan_def)
qed

lemma scale_calls_noop:
  assumes "wf_args n dst src m" "i < n" "plan_steps dst src m i = []"
  shows "scale_calls n dst src m = Inr []"
proof -
  have "i \<le> n - 1" using assms(2) by simp
  then have "grid (n - 1) (plan_steps dst src m) ds = []" for ds
    using assms(3) by (rule grid_empty)
  then show ?thesis by (simp add: scale_calls_closed [OF assms(1)])
qed

text \<open>
  C5: when some axis of the destination area or of the source area has \<open>a = b\<close>, \<^verbatim>\<open>scale\<close>
  returns with the processor's state as it was and the processor is not called; and no
  call of \<^verbatim>\<open>scale\<close> on areas of \<open>n\<close> axes divides by zero, since the test of the second
  loop comes before the division of the third. \<open>wf_args\<close> says that the three areas have
  \<open>n > 0\<close> axes, as their types do in the source.
\<close>

theorem degenerate_no_calls:
  assumes "wf_args n dst src m"
  shows "scale n dst src P m p \<noteq> Inl DivisionByZero \<and>
         ((\<exists>i<n. area_a dst ! i = area_b dst ! i \<or> area_a src ! i = area_b src ! i) \<longrightarrow>
          scale n dst src P m p = Inr p \<and> scale_calls n dst src m = Inr [])"
proof -
  have "degenerate n dst src"
    if "\<exists>i<n. area_a dst ! i = area_b dst ! i \<or> area_a src ! i = area_b src ! i"
    using that by (auto simp: degenerate_iff eq_fixed_def)
  then show ?thesis
    by (auto simp: scale_closed [OF assms] scale_calls_closed [OF assms])
qed

theorem degenerate_no_calls_witness:
  "wf_args 2 \<lparr>area_a = [0, 7], area_b = [4, 7]\<rparr>
     \<lparr>area_a = [fixed 0, fixed 0], area_b = [fixed 8, fixed 6]\<rparr> \<lparr>area_a = [0, 0], area_b = [4, 9]\<rparr> \<and>
   (\<exists>i<2. area_a \<lparr>area_a = [0, 7 :: int32_t], area_b = [4, 7]\<rparr> ! i =
           area_b \<lparr>area_a = [0, 7 :: int32_t], area_b = [4, 7]\<rparr> ! i) \<and>
   scale 2 \<lparr>area_a = [0, 7], area_b = [4, 7]\<rparr>
     \<lparr>area_a = [fixed 0, fixed 0], area_b = [fixed 8, fixed 6]\<rparr> record_call
     \<lparr>area_a = [0, 0], area_b = [4, 9]\<rparr> [] = Inr [] \<and>
   scale_calls 2 \<lparr>area_a = [0, 7], area_b = [4, 7]\<rparr>
     \<lparr>area_a = [fixed 0, fixed 0], area_b = [fixed 8, fixed 6]\<rparr> \<lparr>area_a = [0, 0], area_b = [4, 9]\<rparr> =
     Inr []"
proof -
  have wf: "wf_args 2 \<lparr>area_a = [0, 7], area_b = [4, 7]\<rparr>
     \<lparr>area_a = [fixed 0, fixed 0], area_b = [fixed 8, fixed 6]\<rparr> \<lparr>area_a = [0, 0], area_b = [4, 9]\<rparr>"
    by (simp add: wf_args_def)
  let ?dst = "\<lparr>area_a = [0, 7 :: int32_t], area_b = [4, 7]\<rparr>"
  let ?src = "\<lparr>area_a = [fixed 0, fixed 0], area_b = [fixed 8, fixed 6]\<rparr>"
  have eq: "area_a ?dst ! 1 = area_b ?dst ! 1"
    by simp
  then have ex: "\<exists>i<2. area_a ?dst ! i = area_b ?dst ! i"
    by (intro exI [of _ 1]) simp
  then have "\<exists>i<2. area_a ?dst ! i = area_b ?dst ! i \<or> area_a ?src ! i = area_b ?src ! i"
    by blast
  with degenerate_no_calls [OF wf, of record_call "[]"] wf ex show ?thesis
    by blast
qed

text \<open>
  C6: when, on some axis, the destination range with its ends in order lies outside the
  mask with its ends in order (its end is below the start of the mask, or its start is at
  or above the end of the mask), \<^verbatim>\<open>scale\<close> calls the processor for no index at all,
  whatever the other axes are.
\<close>

theorem outside_mask_no_calls:
  assumes "wf_args n dst src m" "i < n"
    and "max_int32 (area_a dst ! i) (area_b dst ! i) <s min_int32 (area_a m ! i) (area_b m ! i) \<or>
         max_int32 (area_a m ! i) (area_b m ! i) \<le>s min_int32 (area_a dst ! i) (area_b dst ! i)"
  shows "scale_calls n dst src m = Inr [] \<and> scale n dst src P m p = Inr p"
proof -
  have "plan_steps dst src m i = []"
    using assms(3) by (simp add: plan_steps_def axis_plan_outside)
  from scale_calls_noop [OF assms(1,2) this] scale_by_calls [OF assms(1), of P p]
  show ?thesis by auto
qed

theorem outside_mask_no_calls_witness:
  "wf_args 2 \<lparr>area_a = [0, 8], area_b = [4, 5]\<rparr>
     \<lparr>area_a = [fixed 0, fixed 0], area_b = [fixed 8, fixed 6]\<rparr> \<lparr>area_a = [0, 20], area_b = [4, 9]\<rparr> \<and>
   (1 :: nat) < 2 \<and>
   max_int32 (area_b \<lparr>area_a = [0, 20 :: int32_t], area_b = [4, 9]\<rparr> ! 1)
             (area_a \<lparr>area_a = [0, 20 :: int32_t], area_b = [4, 9]\<rparr> ! 1) \<le>s 20 \<and>
   max_int32 (area_a \<lparr>area_a = [0, 8 :: int32_t], area_b = [4, 5]\<rparr> ! 1)
             (area_b \<lparr>area_a = [0, 8 :: int32_t], area_b = [4, 5]\<rparr> ! 1) <s
     min_int32 (area_a \<lparr>area_a = [0, 20 :: int32_t], area_b = [4, 9]\<rparr> ! 1)
               (area_b \<lparr>area_a = [0, 20 :: int32_t], area_b = [4, 9]\<rparr> ! 1) \<and>
   scale_calls 2 \<lparr>area_a = [0, 8], area_b = [4, 5]\<rparr>
     \<lparr>area_a = [fixed 0, fixed 0], area_b = [fixed 8, fixed 6]\<rparr> \<lparr>area_a = [0, 20], area_b = [4, 9]\<rparr> =
     Inr []"
  using outside_mask_no_calls [of 2 "\<lparr>area_a = [0, 8], area_b = [4, 5]\<rparr>"
      "\<lparr>area_a = [fixed 0, fixed 0], area_b = [fixed 8, fixed 6]\<rparr>"
      "\<lparr>area_a = [0, 20], area_b = [4, 9]\<rparr>" 1 record_call "[]"]
  by (simp add: wf_args_def min_int32_def max_int32_def)

section \<open>The mask as a clip of the destination\<close>

text \<open>
  The destination indices of one axis lie between the ends of the range the loop runs
  over, and clipping the range by the mask keeps exactly the steps whose destination index
  is in the mask, with the source index they had before.
\<close>

lemma sint_of_int_between:
  assumes "sint (a :: int32_t) \<le> j" "j < sint (b :: int32_t)"
  shows "sint (word_of_int j :: int32_t) = j"
proof -
  have "- (2 ^ 31) \<le> sint a" using sint_ge [of a] by simp
  moreover have "sint b < 2 ^ 31" using sint_lt [of b] by simp
  ultimately have "signed_take_bit 31 j = j"
    using assms by (intro signed_take_bit_int_eq_self) auto
  then show ?thesis by (simp add: sint_sbintrunc')
qed

lemma axis_steps_fst:
  assumes "xy \<in> set (axis_steps a b s d)"
  shows "a \<le>s fst xy \<and> fst xy <s b"
proof -
  from assms obtain j where j: "sint a \<le> j" "j \<le> sint b - 1" "fst xy = word_of_int j"
    by (auto simp: axis_steps_def)
  then have "sint (fst xy) = j"
    using sint_of_int_between [of a j b] by simp
  with j show ?thesis by (simp add: word_sle_eq word_sless_alt)
qed

lemma upto_filter:
  "filter (\<lambda>j. lo \<le> j \<and> j < hi) [i..k] = [max i lo..min k (hi - 1)]"
  by (rule sorted_distinct_set_unique) (auto intro: sorted_wrt_filter)

lemma axis_steps_filter:
  "filter (\<lambda>xy. ma \<le>s fst xy \<and> fst xy <s mb) (axis_steps a b s d) =
   axis_steps (if a <s ma then ma else a) (if mb \<le>s b then mb else b)
     (if a <s ma then Fixed (value_bits s + value_bits d * (ma - a)) else s) d"
proof -
  let ?f = "\<lambda>j. (word_of_int j :: int32_t, Fixed (value_bits s + (word_of_int j - a) * value_bits d))"
  let ?a' = "if a <s ma then ma else a"
  let ?b' = "if mb \<le>s b then mb else b"
  let ?s' = "if a <s ma then Fixed (value_bits s + value_bits d * (ma - a)) else s"
  have "filter (\<lambda>xy. ma \<le>s fst xy \<and> fst xy <s mb) (axis_steps a b s d) =
        map ?f (filter (\<lambda>j. ma \<le>s word_of_int j \<and> (word_of_int j :: int32_t) <s mb) [sint a..sint b - 1])"
    by (simp add: axis_steps_def filter_map comp_def)
  also have "filter (\<lambda>j. ma \<le>s word_of_int j \<and> (word_of_int j :: int32_t) <s mb) [sint a..sint b - 1] =
        filter (\<lambda>j. sint ma \<le> j \<and> j < sint mb) [sint a..sint b - 1]"
  proof (rule filter_cong [OF refl])
    fix j assume "j \<in> set [sint a..sint b - 1]"
    then have "sint (word_of_int j :: int32_t) = j"
      using sint_of_int_between [of a j b] by simp
    then show "(ma \<le>s word_of_int j \<and> (word_of_int j :: int32_t) <s mb) = (sint ma \<le> j \<and> j < sint mb)"
      by (auto simp: word_sle_eq word_sless_alt)
  qed
  also have "\<dots> = [max (sint a) (sint ma)..min (sint b - 1) (sint mb - 1)]"
    by (rule upto_filter)
  also have "max (sint a) (sint ma) = sint ?a'"
    by (simp add: word_sless_alt max_def)
  also have "min (sint b - 1) (sint mb - 1) = sint ?b' - 1"
    by (simp add: word_sle_eq min_def)
  also have "map ?f [sint ?a'..sint ?b' - 1] = axis_steps ?a' ?b' ?s' d"
    by (simp add: axis_steps_def algebra_simps)
  finally show ?thesis .
qed


lemma steps_at_clip:
  "steps_at (clip_end_t mb (clip_start_t ma ax)) =
   filter (\<lambda>xy. ma \<le>s fst xy \<and> fst xy <s mb) (steps_at ax)"
  by (cases ax) (simp add: steps_at_def axis_steps_filter)

lemma steps_at_outside:
  assumes "outside_t ma mb ax"
  shows "filter (\<lambda>xy. ma \<le>s fst xy \<and> fst xy <s mb) (steps_at ax) = []"
proof -
  have "\<not> (ma \<le>s fst xy \<and> fst xy <s mb)" if "xy \<in> set (steps_at ax)" for xy
  proof -
    have "ax_a ax \<le>s fst xy \<and> fst xy <s ax_b ax"
      using that by (simp add: steps_at_def axis_steps_fst)
    moreover have "ax_b ax <s ma \<or> mb \<le>s ax_a ax"
      using assms by (cases ax) simp
    ultimately show ?thesis
      by (auto simp: word_sle_eq word_sless_alt)
  qed
  then show ?thesis by (simp add: filter_empty_conv)
qed

text \<open>
  The axis \<open>i\<close> of a call after the swap, the division and the source start, before any
  clipping, and its steps.
\<close>

definition full_axis :: "int32_t Area \<Rightarrow> fixed32_t Area \<Rightarrow> nat \<Rightarrow> axis" where
  "full_axis dst src i =
     start_t (delta_t (reverse_t
       (Axis (area_a dst ! i) (area_b dst ! i) (area_a src ! i) (area_b src ! i) (Fixed 0) (Fixed 0))))"

definition full_steps :: "int32_t Area \<Rightarrow> fixed32_t Area \<Rightarrow> nat \<Rightarrow> (int32_t \<times> fixed32_t) list" where
  "full_steps dst src i = steps_at (full_axis dst src i)"

text \<open>
  \<open>inside m i x\<close>: the index \<open>x\<close> is in the mask \<open>m\<close> on the axis \<open>i\<close>, the ends of the mask
  taken in order.
\<close>

definition inside :: "int32_t Area \<Rightarrow> nat \<Rightarrow> int32_t \<Rightarrow> bool" where
  "inside m i x \<longleftrightarrow>
     min_int32 (area_a m ! i) (area_b m ! i) \<le>s x \<and> x <s max_int32 (area_a m ! i) (area_b m ! i)"

lemma start_delta_ends [simp]:
  "ax_a (start_t ax) = ax_a ax" "ax_b (start_t ax) = ax_b ax"
  "ax_a (delta_t ax) = ax_a ax" "ax_b (delta_t ax) = ax_b ax"
  by (cases ax; simp)+

lemma outside_t_start_delta [simp]:
  "outside_t ma mb (start_t (delta_t ax)) = outside_t ma mb ax"
  by (cases ax) simp

lemma plan_steps_filter:
  "plan_steps dst src m i = filter (\<lambda>xy. inside m i (fst xy)) (full_steps dst src i)"
  using steps_at_outside [of "min_int32 (area_a m ! i) (area_b m ! i)"
      "max_int32 (area_a m ! i) (area_b m ! i)" "full_axis dst src i"]
  by (simp add: plan_steps_def axis_plan_def full_steps_def full_axis_def steps_at_clip inside_def)

lemma full_axis_ends:
  "ax_a (full_axis dst src i) = min_int32 (area_a dst ! i) (area_b dst ! i)"
  "ax_b (full_axis dst src i) = max_int32 (area_a dst ! i) (area_b dst ! i)"
  by (simp_all add: full_axis_def reverse_t_ends del: reverse_t.simps)

text \<open>
  \<open>covers n m dst\<close>: on each of the \<open>n\<close> axes the mask \<open>m\<close> contains the destination range,
  the ends of both taken in order.
\<close>

definition covers :: "nat \<Rightarrow> int32_t Area \<Rightarrow> int32_t Area \<Rightarrow> bool" where
  "covers n m dst \<longleftrightarrow>
     (\<forall>i<n. min_int32 (area_a m ! i) (area_b m ! i) \<le>s min_int32 (area_a dst ! i) (area_b dst ! i) \<and>
            max_int32 (area_a dst ! i) (area_b dst ! i) \<le>s max_int32 (area_a m ! i) (area_b m ! i))"

lemma plan_steps_covers:
  assumes "covers n m dst" "i < n"
  shows "plan_steps dst src m i = full_steps dst src i"
proof -
  have "inside m i (fst xy)" if "xy \<in> set (full_steps dst src i)" for xy
  proof -
    have "min_int32 (area_a dst ! i) (area_b dst ! i) \<le>s fst xy \<and>
          fst xy <s max_int32 (area_a dst ! i) (area_b dst ! i)"
      using axis_steps_fst [of xy] that by (simp add: full_steps_def steps_at_def full_axis_ends)
    with assms show ?thesis
      by (auto simp: covers_def inside_def word_sle_eq word_sless_alt)
  qed
  then show ?thesis by (simp add: plan_steps_filter)
qed

lemma grid_keeps:
  assumes "ds \<in> set (grid j steps ds0)"
  shows "length (fst ds) = length (fst ds0) \<and> (\<forall>k>j. fst ds ! k = fst ds0 ! k)"
  using assms
proof (induction j arbitrary: ds0)
  case 0
  then show ?case by auto
next
  case (Suc j)
  then obtain xy where "ds \<in> set (grid j steps ((fst ds0)[Suc j := fst xy], (snd ds0)[Suc j := snd xy]))"
    by auto
  from Suc.IH [OF this] show ?case by auto
qed

lemma concat_map_if:
  "concat (map (\<lambda>x. if R x then g x else []) xs) = concat (map g (filter R xs))"
  by (induction xs) simp_all

lemma grid_filter:
  assumes "j < length (fst ds0)"
    and "\<And>k. k \<le> j \<Longrightarrow> steps' k = filter (\<lambda>xy. Q k (fst xy)) (steps k)"
  shows "grid j steps' ds0 = filter (\<lambda>ds. \<forall>k\<le>j. Q k (fst ds ! k)) (grid j steps ds0)"
  using assms
proof (induction j arbitrary: ds0)
  case 0
  then show ?case by (simp add: filter_map comp_def)
next
  case (Suc j)
  let ?next = "\<lambda>xy. ((fst ds0)[Suc j := fst xy], (snd ds0)[Suc j := snd xy])"
  have inner: "filter (\<lambda>ds. \<forall>k\<le>Suc j. Q k (fst ds ! k)) (grid j steps (?next xy)) =
               (if Q (Suc j) (fst xy) then grid j steps' (?next xy) else [])" for xy
  proof -
    have top: "fst ds ! Suc j = fst xy" if "ds \<in> set (grid j steps (?next xy))" for ds
      using grid_keeps [OF that] Suc.prems(1) by simp
    have "filter (\<lambda>ds. \<forall>k\<le>Suc j. Q k (fst ds ! k)) (grid j steps (?next xy)) =
          filter (\<lambda>ds. Q (Suc j) (fst xy) \<and> (\<forall>k\<le>j. Q k (fst ds ! k))) (grid j steps (?next xy))"
      by (rule filter_cong [OF refl]) (auto simp: top le_Suc_eq)
    also have "\<dots> = (if Q (Suc j) (fst xy)
                      then filter (\<lambda>ds. \<forall>k\<le>j. Q k (fst ds ! k)) (grid j steps (?next xy)) else [])"
      by simp
    also have "filter (\<lambda>ds. \<forall>k\<le>j. Q k (fst ds ! k)) (grid j steps (?next xy)) =
               grid j steps' (?next xy)"
      using Suc.prems by (intro Suc.IH [symmetric]) simp_all
    finally show ?thesis .
  qed
  show ?case
    by (simp add: filter_concat comp_def inner concat_map_if Suc.prems(2) [of "Suc j"])
qed

text \<open>
  \<open>in_mask n m d\<close>: the point \<open>d\<close> is in the mask on each of the \<open>n\<close> axes. \<open>full_calls\<close>
  lists the calls of a destination that is not clipped.
\<close>

definition in_mask :: "nat \<Rightarrow> int32_t Area \<Rightarrow> int32_t Point \<Rightarrow> bool" where
  "in_mask n m d = list_all (\<lambda>i. inside m i (d ! i)) [0..<n]"

definition full_calls ::
  "nat \<Rightarrow> int32_t Area \<Rightarrow> fixed32_t Area \<Rightarrow> (int32_t Point \<times> fixed32_t Point) list" where
  "full_calls n dst src =
     (if degenerate n dst src then []
      else grid (n - 1) (full_steps dst src) (replicate n 0, replicate n (Fixed 0)))"

lemma in_mask_iff: "0 < n \<Longrightarrow> in_mask n m d \<longleftrightarrow> (\<forall>k\<le>n - 1. inside m k (d ! k))"
  by (auto simp: in_mask_def list_all_iff)

lemma scale_calls_masked:
  assumes "wf_args n dst src m"
  shows "scale_calls n dst src m = Inr (filter (\<lambda>ds. in_mask n m (fst ds)) (full_calls n dst src))"
proof -
  have n: "0 < n" using assms by (simp add: wf_args_def)
  have "grid (n - 1) (plan_steps dst src m) (replicate n 0, replicate n (Fixed 0)) =
        filter (\<lambda>ds. \<forall>k\<le>n - 1. inside m k (fst ds ! k))
          (grid (n - 1) (full_steps dst src) (replicate n 0, replicate n (Fixed 0)))"
    using n by (intro grid_filter) (simp_all add: plan_steps_filter)
  then show ?thesis
    by (simp add: scale_calls_closed [OF assms] full_calls_def in_mask_iff [OF n])
qed

lemma scale_calls_covering:
  assumes "wf_args n dst src m" "covers n m dst"
  shows "scale_calls n dst src m = Inr (full_calls n dst src)"
proof -
  have n: "0 < n" using assms(1) by (simp add: wf_args_def)
  have "plan_steps dst src m k = full_steps dst src k" if "k \<le> n - 1" for k
  proof -
    have "k < n" using that n by simp
    with assms(2) show ?thesis by (rule plan_steps_covers)
  qed
  then have "grid (n - 1) (plan_steps dst src m) ds = grid (n - 1) (full_steps dst src) ds" for ds
    by (rule grid_cong)
  then show ?thesis
    by (simp add: scale_calls_closed [OF assms(1)] full_calls_def)
qed

text \<open>
  C2: the calls of \<^verbatim>\<open>scale\<close> under a mask \<open>m\<close> are the calls under a mask \<open>f\<close> that covers
  the destination, restricted to the destination indices inside \<open>m\<close>, in the same order and
  with the same source indices: moving the source start by
  \<open>delta * (mask.a - destination.a)\<close> does not shift the source index of any destination
  index. This holds for every mask, in particular for one strictly inside the destination.
\<close>

theorem mask_clips_calls:
  assumes "wf_args n dst src m" "wf_args n dst src f" "covers n f dst"
  shows "\<exists>cs. scale_calls n dst src f = Inr cs \<and>
              scale_calls n dst src m = Inr (filter (\<lambda>(d, s). in_mask n m d) cs)"
  by (simp add: scale_calls_covering [OF assms(2,3)] scale_calls_masked [OF assms(1)]
        case_prod_unfold)

theorem mask_clips_calls_witness:
  "wf_args 1 \<lparr>area_a = [0], area_b = [10]\<rparr> \<lparr>area_a = [fixed 0], area_b = [fixed 100]\<rparr>
     \<lparr>area_a = [3], area_b = [7]\<rparr> \<and>
   wf_args 1 \<lparr>area_a = [0], area_b = [10]\<rparr> \<lparr>area_a = [fixed 0], area_b = [fixed 100]\<rparr>
     \<lparr>area_a = [0], area_b = [10]\<rparr> \<and>
   covers 1 \<lparr>area_a = [0], area_b = [10]\<rparr> \<lparr>area_a = [0], area_b = [10]\<rparr> \<and>
   (\<exists>cs. scale_calls 1 \<lparr>area_a = [0], area_b = [10]\<rparr> \<lparr>area_a = [fixed 0], area_b = [fixed 100]\<rparr>
            \<lparr>area_a = [0], area_b = [10]\<rparr> = Inr cs \<and>
         scale_calls 1 \<lparr>area_a = [0], area_b = [10]\<rparr> \<lparr>area_a = [fixed 0], area_b = [fixed 100]\<rparr>
            \<lparr>area_a = [3], area_b = [7]\<rparr> =
           Inr (filter (\<lambda>(d, s). in_mask 1 \<lparr>area_a = [3], area_b = [7]\<rparr> d) cs))"
proof -
  let ?dst = "\<lparr>area_a = [0 :: int32_t], area_b = [10]\<rparr>"
  let ?src = "\<lparr>area_a = [fixed 0], area_b = [fixed 100]\<rparr>"
  let ?m = "\<lparr>area_a = [3 :: int32_t], area_b = [7]\<rparr>"
  have 1: "wf_args 1 ?dst ?src ?m" by (simp add: wf_args_def)
  have 2: "wf_args 1 ?dst ?src ?dst" by (simp add: wf_args_def)
  have 3: "covers 1 ?dst ?dst" by (simp add: covers_def)
  from mask_clips_calls [OF 1 2 3] 1 2 3 show ?thesis by blast
qed

text \<open>
  C10: every destination index the processor is called with lies inside the mask on every
  axis, between the smaller end of the mask (included) and the greater end (excluded).
\<close>

theorem calls_inside_mask:
  assumes "wf_args n dst src m"
  shows "\<exists>cs. scale_calls n dst src m = Inr cs \<and>
           (\<forall>(d, s)\<in>set cs. \<forall>i<n.
              min_int32 (area_a m ! i) (area_b m ! i) \<le>s d ! i \<and>
              d ! i <s max_int32 (area_a m ! i) (area_b m ! i))"
  by (auto simp: scale_calls_masked [OF assms] in_mask_def list_all_iff inside_def)

theorem calls_inside_mask_witness:
  "wf_args 1 \<lparr>area_a = [0], area_b = [10]\<rparr> \<lparr>area_a = [fixed 0], area_b = [fixed 100]\<rparr>
     \<lparr>area_a = [7], area_b = [3]\<rparr> \<and>
   (\<exists>cs. scale_calls 1 \<lparr>area_a = [0], area_b = [10]\<rparr> \<lparr>area_a = [fixed 0], area_b = [fixed 100]\<rparr>
            \<lparr>area_a = [7], area_b = [3]\<rparr> = Inr cs \<and> cs \<noteq> [] \<and>
          (\<forall>(d, s)\<in>set cs. \<forall>i<1.
              min_int32 (area_a \<lparr>area_a = [7 :: int32_t], area_b = [3]\<rparr> ! i)
                        (area_b \<lparr>area_a = [7 :: int32_t], area_b = [3]\<rparr> ! i) \<le>s d ! i \<and>
              d ! i <s max_int32 (area_a \<lparr>area_a = [7 :: int32_t], area_b = [3]\<rparr> ! i)
                                 (area_b \<lparr>area_a = [7 :: int32_t], area_b = [3]\<rparr> ! i)))"
proof -
  let ?dst = "\<lparr>area_a = [0 :: int32_t], area_b = [10]\<rparr>"
  let ?src = "\<lparr>area_a = [fixed 0], area_b = [fixed 100]\<rparr>"
  let ?m = "\<lparr>area_a = [7 :: int32_t], area_b = [3]\<rparr>"
  have wf: "wf_args 1 ?dst ?src ?m" by (simp add: wf_args_def)
  have run: "scale_calls 1 ?dst ?src ?m =
      Inr [([3], [Fixed 983040]), ([4], [Fixed 1310720]), ([5], [Fixed 1638400]),
           ([6], [Fixed 1966080])]"
    by code_simp
  from calls_inside_mask [OF wf] wf show ?thesis
    unfolding run by auto
qed

text \<open>
  C4: for the destination \<open>[0,2) \<times> [0,2)\<close>, the source \<open>[0,4) \<times> [0,4)\<close> and any mask that
  covers the destination, the processor is called four times, once for each destination
  point, the axis \<open>0\<close> running fastest: \<open>(0,0)\<close>, \<open>(1,0)\<close>, \<open>(0,1)\<close>, \<open>(1,1)\<close>, each with the
  source point of twice its coordinates.
\<close>

theorem two_by_two_calls:
  assumes "length (area_a m) = 2" "length (area_b m) = 2"
    and "covers 2 m \<lparr>area_a = [0, 0], area_b = [2, 2]\<rparr>"
  shows "scale_calls 2 \<lparr>area_a = [0, 0], area_b = [2, 2]\<rparr>
           \<lparr>area_a = [fixed 0, fixed 0], area_b = [fixed 4, fixed 4]\<rparr> m =
         Inr [([0, 0], [fixed 0, fixed 0]), ([1, 0], [fixed 2, fixed 0]),
              ([0, 1], [fixed 0, fixed 2]), ([1, 1], [fixed 2, fixed 2])]"
proof -
  let ?dst = "\<lparr>area_a = [0 :: int32_t, 0], area_b = [2, 2]\<rparr>"
  let ?src = "\<lparr>area_a = [fixed 0, fixed 0], area_b = [fixed 4, fixed 4]\<rparr>"
  have "wf_args 2 ?dst ?src m" using assms(1,2) by (simp add: wf_args_def)
  from scale_calls_covering [OF this assms(3)]
  have "scale_calls 2 ?dst ?src m = Inr (full_calls 2 ?dst ?src)" .
  also have "full_calls 2 ?dst ?src =
      [([0, 0], [fixed 0, fixed 0]), ([1, 0], [fixed 2, fixed 0]),
       ([0, 1], [fixed 0, fixed 2]), ([1, 1], [fixed 2, fixed 2])]"
    by code_simp
  finally show ?thesis .
qed

theorem two_by_two_calls_witness:
  "length (area_a \<lparr>area_a = [0 :: int32_t, 0], area_b = [2, 2]\<rparr>) = 2 \<and>
   length (area_b \<lparr>area_a = [0 :: int32_t, 0], area_b = [2, 2]\<rparr>) = 2 \<and>
   covers 2 \<lparr>area_a = [0, 0], area_b = [2, 2]\<rparr> \<lparr>area_a = [0, 0], area_b = [2, 2]\<rparr> \<and>
   scale_calls 2 \<lparr>area_a = [0, 0], area_b = [2, 2]\<rparr>
           \<lparr>area_a = [fixed 0, fixed 0], area_b = [fixed 4, fixed 4]\<rparr>
           \<lparr>area_a = [0, 0], area_b = [2, 2]\<rparr> =
         Inr [([0, 0], [fixed 0, fixed 0]), ([1, 0], [fixed 2, fixed 0]),
              ([0, 1], [fixed 0, fixed 2]), ([1, 1], [fixed 2, fixed 2])]"
proof -
  have c: "covers 2 \<lparr>area_a = [0, 0], area_b = [2, 2]\<rparr> \<lparr>area_a = [0, 0], area_b = [2, 2]\<rparr>"
    by (simp add: covers_def)
  from two_by_two_calls [OF _ _ c] c show ?thesis by simp
qed

section \<open>The source start\<close>

text \<open>
  The smaller and the greater of two fixed-point numbers by their values, the fraction bits
  included: the comparison of the whole representation as a signed integer.
\<close>

definition min_by_value :: "fixed32_t \<Rightarrow> fixed32_t \<Rightarrow> fixed32_t" where
  "min_by_value x y = (if sint (value_bits x) \<le> sint (value_bits y) then x else y)"

definition max_by_value :: "fixed32_t \<Rightarrow> fixed32_t \<Rightarrow> fixed32_t" where
  "max_by_value x y = (if sint (value_bits y) \<le> sint (value_bits x) then x else y)"

lemma sint_to_int: "sint (to_int x) = sint (value_bits x) div 2 ^ precision"
  by (simp add: to_int_def sint_signed_drop_bit_eq drop_bit_eq_div)

lemma less_fixed_iff:
  assumes "\<not> eq_fixed x y"
  shows "less_fixed x y \<longleftrightarrow> sint (value_bits x) < sint (value_bits y)"
proof -
  have ne: "sint (value_bits x) div 32768 \<noteq> sint (value_bits y) div 32768"
  proof
    assume "sint (value_bits x) div 32768 = sint (value_bits y) div 32768"
    then have "sint (to_int x) = sint (to_int y)"
      by (simp add: sint_to_int)
    then have "to_int x = to_int y"
      by (rule signed_word_eqI)
    with assms show False
      by (simp add: eq_fixed_def)
  qed
  have "sint (value_bits x) div 32768 < sint (value_bits y) div 32768 \<longleftrightarrow>
        sint (value_bits x) < sint (value_bits y)"
  proof
    assume "sint (value_bits x) div 32768 < sint (value_bits y) div 32768"
    then show "sint (value_bits x) < sint (value_bits y)"
      using zdiv_mono1 [of "sint (value_bits y)" "sint (value_bits x)" 32768] by auto
  next
    assume "sint (value_bits x) < sint (value_bits y)"
    then have "sint (value_bits x) div 32768 \<le> sint (value_bits y) div 32768"
      by (intro zdiv_mono1) auto
    with ne show "sint (value_bits x) div 32768 < sint (value_bits y) div 32768"
      by simp
  qed
  then show ?thesis
    by (simp add: less_fixed_def word_sless_alt sint_to_int)
qed

lemma eq_fixed_sym: "eq_fixed x y \<longleftrightarrow> eq_fixed y x"
  by (auto simp: eq_fixed_def)

lemma value_bits_differ:
  assumes "\<not> eq_fixed x y"
  shows "sint (value_bits x) \<noteq> sint (value_bits y)"
proof
  assume "sint (value_bits x) = sint (value_bits y)"
  then have "sint (to_int x) = sint (to_int y)"
    by (simp add: sint_to_int)
  then have "to_int x = to_int y"
    by (rule signed_word_eqI)
  with assms show False
    by (simp add: eq_fixed_def)
qed

lemma min_fixed_by_value: "\<not> eq_fixed x y \<Longrightarrow> min_fixed x y = min_by_value x y"
  using less_fixed_iff [of x y] value_bits_differ [of x y]
  by (auto simp: min_fixed_def min_by_value_def)

lemma max_fixed_by_value: "\<not> eq_fixed x y \<Longrightarrow> max_fixed x y = max_by_value x y"
  using less_fixed_iff [of y x] eq_fixed_sym [of x y] value_bits_differ [of x y]
  by (auto simp: max_fixed_def max_by_value_def)

text \<open>
  On an axis that passed the test of the second loop the integer parts of the two source
  ends differ, and then \<^verbatim>\<open>internal::min\<close> and \<^verbatim>\<open>internal::max\<close>, which compare the integer
  parts only, order the two ends as their values do.
\<close>

lemma set_start_by_value:
  assumes "i < length (src_start L)"
    and "\<not> eq_fixed (area_a (src_area L) ! i) (area_b (src_area L) ! i)"
  shows "src_start (set_start i L) ! i =
     (if 0 \<le>s value_bits (src_delta L ! i)
      then min_by_value (area_a (src_area L) ! i) (area_b (src_area L) ! i)
      else add_fixed (max_by_value (area_a (src_area L) ! i) (area_b (src_area L) ! i))
             (src_delta L ! i))"
  using assms by (simp add: set_start_def min_fixed_by_value max_fixed_by_value)













section \<open>Division of fixed-point numbers\<close>

lemma succ_div_same:
  fixes y k :: int
  assumes "0 < k" "\<not> k dvd (y + 1)"
  shows "(y + 1) div k = y div k"
proof -
  define m where "m = y mod k"
  have m: "0 \<le> m" "m < k"
    using assms(1) by (simp_all add: m_def)
  have y: "y = k * (y div k) + m"
    by (simp add: m_def)
  have "m + 1 \<noteq> k"
  proof
    assume "m + 1 = k"
    with y have "y + 1 = k * (y div k + 1)"
      by (simp add: algebra_simps)
    then have "k dvd (y + 1)"
      by (metis dvd_triv_left)
    with assms(2) show False by simp
  qed
  with m have "m + 1 < k" by simp
  moreover have "y + 1 = k * (y div k) + (m + 1)"
    using y by simp
  ultimately show ?thesis
    using m by (intro int_div_pos_eq [of _ _ _ "m + 1"]) simp_all
qed

lemma sdiv_then_floor:
  fixes A B :: int
  assumes "B \<noteq> 0" and "\<bar>B\<bar> \<le> 32768 \<or> 0 \<le> A * B"
  shows "((A * 32768) sdiv B) div 32768 = A div B"
proof -
  let ?X = "A * 32768"
  let ?Y = "?X div B"
  have base: "?Y div 32768 = A div B"
  proof -
    have "?Y div 32768 = ?X div (B * 32768)"
      by (simp add: zdiv_zmult2_eq)
    also have "\<dots> = A div B" by simp
    finally show ?thesis .
  qed
  show ?thesis
  proof (cases "sgn ?X \<noteq> sgn B \<and> \<not> B dvd ?X")
    case False
    then have "?X sdiv B = ?Y"
      using assms(1) by (auto simp: signed_divide_int_eq_divide_int)
    then show ?thesis by (simp add: base)
  next
    case True
    then have sd: "?X sdiv B = ?Y + 1"
      using assms(1) by (simp add: signed_divide_int_eq_divide_int)
    have "A * B < 0"
      using True assms(1) by (cases "A = 0") (auto simp: sgn_if mult_less_0_iff split: if_splits)
    with assms(2) have B: "\<bar>B\<bar> \<le> 32768" by simp
    define r where "r = ?X mod B"
    have r0: "r \<noteq> 0" using True by (simp add: r_def dvd_eq_mod_eq_0)
    have X: "?X = B * ?Y + r" by (simp add: r_def)
    have "\<not> 32768 dvd (?Y + 1)"
    proof
      assume "32768 dvd (?Y + 1)"
      then obtain M where M: "?Y + 1 = 32768 * M" by (auto simp: dvd_def)
      then have "?Y = 32768 * M - 1" by simp
      with X have "A * 32768 = B * (32768 * M - 1) + r" by simp
      then have "r - B = 32768 * (A - B * M)" by (simp add: algebra_simps)
      then have dvd: "32768 dvd (r - B)" by simp
      have "\<bar>r - B\<bar> < 32768 \<and> r - B \<noteq> 0"
      proof (cases "0 < B")
        case True
        then have "0 \<le> r" "r < B" by (simp_all add: r_def)
        with r0 B show ?thesis by auto
      next
        case False
        with assms(1) have "B < 0" by simp
        then have "r \<le> 0" "B < r" by (simp_all add: r_def)
        with r0 B show ?thesis by auto
      qed
      then have "\<not> 32768 dvd \<bar>r - B\<bar>"
        by (intro zdvd_not_zless) simp_all
      with dvd show False
        by simp
    qed
    then have "(?Y + 1) div 32768 = ?Y div 32768"
      by (intro succ_div_same) simp_all
    then show ?thesis by (simp add: sd base)
  qed
qed


text \<open>
  \<^verbatim>\<open>int32_t(fixed32_t(a) / fixed32_t(b))\<close>: two integers are converted to fixed-point numbers,
  divided, and the quotient is converted back.
\<close>

definition div_via_fixed :: "int32_t \<Rightarrow> int32_t \<Rightarrow> error + int32_t" where
  "div_via_fixed a b =
     (case div_fixed (fixed a) (fixed b) of Inl e \<Rightarrow> Inl e | Inr q \<Rightarrow> Inr (to_int q))"

lemma sint_fixed:
  assumes "- 65536 \<le> sint n" "sint n < 65536"
  shows "sint (value_bits (fixed n)) = sint n * 32768"
proof -
  have "signed_take_bit 31 (sint n * 32768) = sint n * 32768"
    using assms by (intro signed_take_bit_int_eq_self) auto
  then show ?thesis
    by (simp add: fixed_def push_bit_eq_mult sint_word_ariths)
qed

lemma sint_widen_shift:
  assumes "- (2 ^ 31) \<le> sint (w :: int32_t)" "sint w < 2 ^ 31"
  shows "sint (push_bit 15 (scast w :: int64_t)) = sint w * 32768"
proof -
  have up: "sint (scast w :: int64_t) = sint w"
    by (simp add: sint_up_scast is_up)
  have "signed_take_bit 63 (sint w * 32768) = sint w * 32768"
    using assms by (intro signed_take_bit_int_eq_self) auto
  then show ?thesis
    by (simp add: push_bit_eq_mult sint_word_ariths up)
qed

lemma sdiv_mult_cancel:
  fixes k l c :: int
  assumes "0 < c"
  shows "(k * c) sdiv (l * c) = k sdiv l"
  using assms by (simp add: signed_divide_int_def sgn_mult abs_mult)

lemma narrow_of_int: "(ucast (word_of_int k :: int64_t) :: int32_t) = word_of_int k"
  by (simp add: unsigned_of_int word_of_int_eq_iff take_bit_take_bit min_def)

lemma fixed_quotient:
  assumes "- 65536 < sint a" "sint a < 65536" "- 65536 < sint b" "sint b < 65536" "b \<noteq> 0"
  shows "div_fixed (fixed a) (fixed b) = Inr (Fixed (word_of_int ((sint a * 32768) sdiv sint b)))"
    and "sint (word_of_int ((sint a * 32768) sdiv sint b) :: int32_t) = (sint a * 32768) sdiv sint b"
proof -
  have va: "sint (value_bits (fixed a)) = sint a * 32768"
    using assms by (intro sint_fixed) simp_all
  have vb: "sint (value_bits (fixed b)) = sint b * 32768"
    using assms by (intro sint_fixed) simp_all
  have num: "sint (push_bit 15 (scast (value_bits (fixed a)) :: int64_t)) = sint a * 32768 * 32768"
    using sint_widen_shift [of "value_bits (fixed a)"] sint_ge [of "value_bits (fixed a)"]
      sint_lt [of "value_bits (fixed a)"] by (simp add: va)
  have den: "sint (scast (value_bits (fixed b)) :: int64_t) = sint b * 32768"
    by (simp add: sint_up_scast is_up vb)
  have b0: "sint b \<noteq> 0"
    using assms(5) by (metis signed_eq_0_iff)
  then have "(scast (value_bits (fixed b)) :: int64_t) \<noteq> 0"
    using den by (metis mult_eq_0_iff signed_0 zero_neq_numeral)
  moreover have "(sint a * 32768 * 32768) sdiv (sint b * 32768) = (sint a * 32768) sdiv sint b"
    by (rule sdiv_mult_cancel) simp
  ultimately show "div_fixed (fixed a) (fixed b) =
      Inr (Fixed (word_of_int ((sint a * 32768) sdiv sint b)))"
    by (simp add: div_fixed_def divide_def num den narrow_of_int)
  have "(sint a * 32768) sdiv sint b \<in> {- \<bar>sint a * 32768\<bar>..\<bar>sint a * 32768\<bar>}"
    by (rule sdiv_int_range)
  then have "- (2 ^ 31) \<le> (sint a * 32768) sdiv sint b \<and> (sint a * 32768) sdiv sint b < 2 ^ 31"
    using assms(1,2) by auto
  then have "signed_take_bit 31 ((sint a * 32768) sdiv sint b) = (sint a * 32768) sdiv sint b"
    by (intro signed_take_bit_int_eq_self) auto
  then show "sint (word_of_int ((sint a * 32768) sdiv sint b) :: int32_t) = (sint a * 32768) sdiv sint b"
    by (simp add: sint_sbintrunc')
qed

text \<open>
  C8, as amended: for integers \<open>a\<close> and \<open>b \<noteq> 0\<close> of magnitude below \<open>2\<^sup>1\<^sup>6\<close> (so that the
  conversions do not overflow), with \<open>\<bar>b\<bar> \<le> 2\<^sup>1\<^sup>5\<close> or a quotient that is not negative, the
  division through fixed-point numbers is the quotient rounded towards minus infinity; and
  the conversion of any fixed-point number to an integer is its value rounded towards
  minus infinity (the arithmetic shift). The division itself truncates towards zero, so
  beyond \<open>\<bar>b\<bar> \<le> 2\<^sup>1\<^sup>5\<close> a small negative quotient is lost before the shift rounds down.
\<close>

theorem div_via_fixed_floor:
  assumes "- 65536 < sint a" "sint a < 65536" "- 65536 < sint b" "sint b < 65536" "b \<noteq> 0"
    and "\<bar>sint b\<bar> \<le> 2 ^ precision \<or> 0 \<le> sint a * sint b"
  shows "(\<exists>q. div_via_fixed a b = Inr q \<and> sint q = sint a div sint b) \<and>
         sint (to_int f) = sint (value_bits f) div 2 ^ precision"
proof -
  have b0: "sint b \<noteq> 0"
    using assms(5) by (metis signed_eq_0_iff)
  have "sint (to_int (Fixed (word_of_int ((sint a * 32768) sdiv sint b)))) =
        ((sint a * 32768) sdiv sint b) div 32768"
    by (simp add: sint_to_int fixed_quotient(2) [OF assms(1-5)])
  also have "\<dots> = sint a div sint b"
    using assms(6) b0 by (intro sdiv_then_floor) simp_all
  finally show ?thesis
    by (simp add: div_via_fixed_def fixed_quotient(1) [OF assms(1-5)] sint_to_int)
qed

text \<open>
  C8 as stated fails: \<open>-1 / 40000\<close> rounded towards minus infinity is \<open>-1\<close>, the division
  through fixed-point numbers gives \<open>0\<close>.
\<close>

theorem div_via_fixed_not_floor:
  "div_via_fixed (- 1) 40000 \<noteq> Inr (word_of_int (sint (- 1 :: int32_t) div sint (40000 :: int32_t)))"
proof -
  have "div_via_fixed (- 1) 40000 = Inr 0"
    by code_simp
  then show ?thesis by simp
qed

theorem div_via_fixed_floor_witness:
  "- 65536 < sint (- 7 :: int32_t) \<and> sint (- 7 :: int32_t) < 65536 \<and>
   - 65536 < sint (2 :: int32_t) \<and> sint (2 :: int32_t) < 65536 \<and> (2 :: int32_t) \<noteq> 0 \<and>
   \<bar>sint (2 :: int32_t)\<bar> \<le> 2 ^ precision \<and>
   (\<exists>q. div_via_fixed (- 7) 2 = Inr q \<and> sint q = - 4) \<and>
   sint (to_int (Fixed (- 114688))) = - 4"
  using div_via_fixed_floor [of "- 7" 2 "Fixed (- 114688)"] by simp

section \<open>An axis whose step is exact\<close>

lemma sint_diff:
  assumes "- (2 ^ 31) \<le> sint (x :: int32_t) - sint (y :: int32_t)" "sint x - sint y < 2 ^ 31"
  shows "sint (x - y) = sint x - sint y"
proof -
  have "signed_take_bit 31 (sint x - sint y) = sint x - sint y"
    using assms by (intro signed_take_bit_int_eq_self) auto
  then show ?thesis by (simp add: sint_word_ariths)
qed

lemma sint_of_int_small:
  assumes "- (2 ^ 31) \<le> k" "k < 2 ^ 31"
  shows "sint (word_of_int k :: int32_t) = k"
proof -
  have "signed_take_bit 31 k = k"
    using assms by (intro signed_take_bit_int_eq_self) auto
  then show ?thesis by (simp add: sint_sbintrunc')
qed

lemma exact_axis:
  assumes ab: "a <s b"
    and N: "sint (value_bits lst) - sint (value_bits frst) = (sint b - sint a) * q"
    and small: "\<bar>(sint b - sint a) * q\<bar> < 2 ^ 31" "sint b - sint a < 2 ^ 31"
    and ne: "\<not> eq_fixed frst lst"
  shows "start_t (delta_t (Axis a b frst lst d0 s0)) =
           Axis a b frst lst (Fixed (word_of_int q))
             (if 0 < q then frst else Fixed (value_bits frst + word_of_int q))"
    and "value_bits lst = value_bits frst + (b - a) * word_of_int q"
    and "q \<noteq> 0"
proof -
  let ?W = "sint b - sint a"
  have W: "0 < ?W" using ab by (simp add: word_sless_alt)
  have sW: "sint (b - a) = ?W"
    using W small(2) by (intro sint_diff) simp_all
  have sN: "sint (value_bits lst - value_bits frst) = ?W * q"
    using small(1) N by (intro sint_diff [THEN trans]) simp_all
  have "sint (value_bits frst) \<noteq> sint (value_bits lst)"
    using ne by (rule value_bits_differ)
  with N W show q0: "q \<noteq> 0" by auto
  have "\<bar>q\<bar> * 1 \<le> \<bar>q\<bar> * ?W"
    using W by (intro mult_left_mono) simp_all
  then have "\<bar>q\<bar> \<le> \<bar>?W * q\<bar>"
    using W by (simp add: abs_mult mult.commute)
  with small(1) have q: "- (2 ^ 31) \<le> q" "q < 2 ^ 31" by auto
  have sq: "sint (word_of_int q :: int32_t) = q"
    using q by (rule sint_of_int_small)
  have quot: "(?W * q) sdiv ?W = q"
    using W by (simp add: signed_divide_int_eq_divide_int)
  have "word_of_int (sint (value_bits lst - value_bits frst)) =
        (word_of_int (sint (b - a)) :: int32_t) * word_of_int q"
    by (simp add: sN sW)
  then have K: "value_bits lst - value_bits frst = (b - a) * word_of_int q"
    by simp
  then show "value_bits lst = value_bits frst + (b - a) * word_of_int q"
    by (simp add: algebra_simps)
  have pos: "0 < sint (value_bits lst) - sint (value_bits frst) \<longleftrightarrow> 0 < q"
    using W by (simp add: N zero_less_mult_iff)
  have neg: "sint (value_bits lst) - sint (value_bits frst) < 0 \<longleftrightarrow> q < 0"
    using W by (simp add: N mult_less_0_iff)
  have less: "less_fixed frst lst \<longleftrightarrow> 0 < q"
    using pos by (simp add: less_fixed_iff [OF ne])
  have "\<not> eq_fixed lst frst"
    using ne by (simp add: eq_fixed_sym)
  then have less': "less_fixed lst frst \<longleftrightarrow> q < 0"
    using neg by (simp add: less_fixed_iff)
  show "start_t (delta_t (Axis a b frst lst d0 s0)) =
           Axis a b frst lst (Fixed (word_of_int q))
             (if 0 < q then frst else Fixed (value_bits frst + word_of_int q))"
    using q0 by (auto simp: sN sW quot word_sle_eq sq min_fixed_def max_fixed_def less less'
        add_fixed_def)
qed


text \<open>The source indices of the calls of one run of \<^verbatim>\<open>scale\<close>, in the order of the calls.\<close>

definition source_indices ::
  "error + (int32_t Point \<times> fixed32_t Point) list \<Rightarrow> fixed32_t Point list" where
  "source_indices r = (case r of Inl e \<Rightarrow> [] | Inr cs \<Rightarrow> map snd cs)"

lemma full_calls_1:
  "full_calls 1 dst src =
     (if degenerate 1 dst src then []
      else map (\<lambda>xy. ([fst xy], [snd xy])) (steps_at (full_axis dst src 0)))"
  by (simp add: full_calls_def full_steps_def)

lemma rev_upto: "rev [i..k] = map (\<lambda>j. i + k - j) [i..k]"
proof (rule nth_equalityI)
  show "length (rev [i..k]) = length (map (\<lambda>j. i + k - j) [i..k])"
    by simp
next
  fix n assume "n < length (rev [i..k])"
  then have n: "int n < k - i + 1" by simp
  then show "rev [i..k] ! n = map (\<lambda>j. i + k - j) [i..k] ! n"
    by (simp add: rev_nth nat_diff_distrib' algebra_simps)
qed

lemma rev_axis_steps:
  assumes "\<And>J. value_bits s' + (J - a) * d' = value_bits s + (b - 1 - J) * d"
  shows "map snd (axis_steps a b s' (Fixed d')) = rev (map snd (axis_steps a b s (Fixed d)))"
proof -
  have mirror: "b - 1 - (word_of_int j :: int32_t) = word_of_int (sint a + (sint b - 1) - j) - a" for j
    by simp
  have "map snd (axis_steps a b s' (Fixed d')) =
        map (\<lambda>j. Fixed (value_bits s' + (word_of_int j - a) * d')) [sint a..sint b - 1]"
    by (simp add: axis_steps_def comp_def)
  also have "\<dots> = map (\<lambda>j. Fixed (value_bits s + (b - 1 - word_of_int j) * d)) [sint a..sint b - 1]"
    by (simp only: assms)
  also have "\<dots> = map (\<lambda>j. Fixed (value_bits s + (word_of_int (sint a + (sint b - 1) - j) - a) * d))
                      [sint a..sint b - 1]"
    by (simp only: mirror)
  also have "\<dots> = rev (map snd (axis_steps a b s (Fixed d)))"
    by (simp add: axis_steps_def rev_map rev_upto comp_def)
  finally show ?thesis .
qed

lemma degenerate_1:
  "degenerate 1 \<lparr>area_a = [a], area_b = [b]\<rparr> \<lparr>area_a = [sa], area_b = [sb]\<rparr> \<longleftrightarrow>
     a = b \<or> eq_fixed sa sb"
  by (simp add: degenerate_def)

lemma reversed_steps:
  assumes ab: "a <s b"
    and dvd: "(sint b - sint a) dvd (sint (value_bits sb) - sint (value_bits sa))"
    and small: "\<bar>sint (value_bits sb) - sint (value_bits sa)\<bar> < 2 ^ 31" "sint b - sint a < 2 ^ 31"
    and ne: "\<not> eq_fixed sa sb"
  shows "map snd (steps_at (full_axis \<lparr>area_a = [b], area_b = [a]\<rparr> \<lparr>area_a = [sa], area_b = [sb]\<rparr> 0)) =
         rev (map snd (steps_at (full_axis \<lparr>area_a = [a], area_b = [b]\<rparr> \<lparr>area_a = [sa], area_b = [sb]\<rparr> 0)))"
proof -
  from dvd obtain q where q: "sint (value_bits sb) - sint (value_bits sa) = (sint b - sint a) * q"
    by (auto simp: dvd_def)
  then have q': "sint (value_bits sa) - sint (value_bits sb) = (sint b - sint a) * (- q)"
    by simp
  have s1: "\<bar>(sint b - sint a) * q\<bar> < 2 ^ 31"
    using small(1) q by simp
  have s2: "\<bar>(sint b - sint a) * (- q)\<bar> < 2 ^ 31"
    using small(1) q by simp
  have ne': "\<not> eq_fixed sb sa"
    using ne by (simp add: eq_fixed_sym)
  have nba: "\<not> b <s a"
    using ab by (simp add: word_sless_alt)
  note fwd = exact_axis [OF ab q s1 small(2) ne]
  note bwd = exact_axis [OF ab q' s2 small(2) ne']
  have f: "steps_at (full_axis \<lparr>area_a = [a], area_b = [b]\<rparr> \<lparr>area_a = [sa], area_b = [sb]\<rparr> 0) =
           axis_steps a b (if 0 < q then sa else Fixed (value_bits sa + word_of_int q))
             (Fixed (word_of_int q))"
  proof -
    have "full_axis \<lparr>area_a = [a], area_b = [b]\<rparr> \<lparr>area_a = [sa], area_b = [sb]\<rparr> 0 =
          start_t (delta_t (Axis a b sa sb (Fixed 0) (Fixed 0)))"
      using nba by (simp add: full_axis_def del: start_t.simps delta_t.simps)
    then show ?thesis
      by (simp only: fwd(1)) (simp add: steps_at_def)
  qed
  have b: "steps_at (full_axis \<lparr>area_a = [b], area_b = [a]\<rparr> \<lparr>area_a = [sa], area_b = [sb]\<rparr> 0) =
           axis_steps a b (if q < 0 then sb else Fixed (value_bits sb - word_of_int q))
             (Fixed (- word_of_int q))"
  proof -
    have "full_axis \<lparr>area_a = [b], area_b = [a]\<rparr> \<lparr>area_a = [sa], area_b = [sb]\<rparr> 0 =
          start_t (delta_t (Axis a b sb sa (Fixed 0) (Fixed 0)))"
      using ab by (simp add: full_axis_def del: start_t.simps delta_t.simps)
    then show ?thesis
      by (simp only: bwd(1)) (simp add: steps_at_def)
  qed
  show ?thesis
    unfolding f b
    by (rule rev_axis_steps) (use fwd(3) in \<open>simp add: fwd(2) algebra_simps\<close>)
qed


text \<open>The destination indices of the calls of one run, in the order of the calls.\<close>

definition destination_indices ::
  "error + (int32_t Point \<times> fixed32_t Point) list \<Rightarrow> int32_t Point list" where
  "destination_indices r = (case r of Inl e \<Rightarrow> [] | Inr cs \<Rightarrow> map fst cs)"

lemma min_max_int32_commute:
  "min_int32 a b = min_int32 b a" "max_int32 a b = max_int32 b a"
  by (auto simp: min_int32_def max_int32_def word_sless_alt dest: signed_word_eqI)

lemma covers_1_commute:
  "covers 1 m \<lparr>area_a = [b], area_b = [a]\<rparr> \<longleftrightarrow> covers 1 m \<lparr>area_a = [a], area_b = [b]\<rparr>"
  by (simp add: covers_def min_max_int32_commute [of a b])

lemma calls_1:
  assumes "length (area_a m) = 1" "length (area_b m) = 1"
    and "covers 1 m \<lparr>area_a = [a], area_b = [b]\<rparr>"
  shows "scale_calls 1 \<lparr>area_a = [a], area_b = [b]\<rparr> \<lparr>area_a = [sa], area_b = [sb]\<rparr> m =
     Inr (if a = b \<or> eq_fixed sa sb then []
          else map (\<lambda>xy. ([fst xy], [snd xy]))
                 (steps_at (full_axis \<lparr>area_a = [a], area_b = [b]\<rparr> \<lparr>area_a = [sa], area_b = [sb]\<rparr> 0)))"
proof -
  have "wf_args 1 \<lparr>area_a = [a], area_b = [b]\<rparr> \<lparr>area_a = [sa], area_b = [sb]\<rparr> m"
    using assms(1,2) by (simp add: wf_args_def)
  from scale_calls_covering [OF this assms(3)] show ?thesis
    by (simp only: full_calls_1 degenerate_1)
qed

lemma map_fst_steps:
  "map fst (steps_at (full_axis \<lparr>area_a = [a], area_b = [b]\<rparr> src 0)) =
   map word_of_int [sint (min_int32 a b)..sint (max_int32 a b) - 1]"
  using full_axis_ends [of "\<lparr>area_a = [a], area_b = [b]\<rparr>" src 0]
  by (simp add: steps_at_def axis_steps_def comp_def)

text \<open>
  C3, as amended: for a one-dimensional destination range and source range and a mask that
  covers the destination, when the difference of the two source ends (in units of
  \<open>2\<^sup>-\<^sup>1\<^sup>5\<close>) is a multiple of the width of the destination, so that the division for
  \<open>delta\<close> leaves no remainder, and neither difference overflows 32 bits, the call with the
  ends of the destination swapped visits the same destination indices in the same order
  and is given the source indices of the other call in reverse order.
\<close>

theorem reversed_destination_exact:
  assumes m: "length (area_a m) = 1" "length (area_b m) = 1"
      "covers 1 m \<lparr>area_a = [a], area_b = [b]\<rparr>"
    and small: "\<bar>sint b - sint a\<bar> < 2 ^ 31" "\<bar>sint (value_bits sb) - sint (value_bits sa)\<bar> < 2 ^ 31"
    and dvd: "(sint b - sint a) dvd (sint (value_bits sb) - sint (value_bits sa))"
  shows "source_indices (scale_calls 1 \<lparr>area_a = [b], area_b = [a]\<rparr> \<lparr>area_a = [sa], area_b = [sb]\<rparr> m) =
           rev (source_indices
                  (scale_calls 1 \<lparr>area_a = [a], area_b = [b]\<rparr> \<lparr>area_a = [sa], area_b = [sb]\<rparr> m)) \<and>
         destination_indices
           (scale_calls 1 \<lparr>area_a = [b], area_b = [a]\<rparr> \<lparr>area_a = [sa], area_b = [sb]\<rparr> m) =
           destination_indices
             (scale_calls 1 \<lparr>area_a = [a], area_b = [b]\<rparr> \<lparr>area_a = [sa], area_b = [sb]\<rparr> m)"
proof -
  let ?src = "\<lparr>area_a = [sa], area_b = [sb]\<rparr>"
  let ?fwd = "steps_at (full_axis \<lparr>area_a = [a], area_b = [b]\<rparr> ?src 0)"
  let ?bwd = "steps_at (full_axis \<lparr>area_a = [b], area_b = [a]\<rparr> ?src 0)"
  note m' = m(1,2) m(3) [folded covers_1_commute [of m b a]]
  have dst: "map fst ?bwd = map fst ?fwd"
    by (simp only: map_fst_steps min_max_int32_commute [of b a])
  have src: "map snd ?bwd = rev (map snd ?fwd)" if "a \<noteq> b" "\<not> eq_fixed sa sb"
  proof (cases "a <s b")
    case True
    with small have "sint b - sint a < 2 ^ 31" by simp
    from reversed_steps [OF True dvd small(2) this that(2)] show ?thesis .
  next
    case False
    have "sint a \<noteq> sint b"
      using that(1) signed_word_eqI [of a b] by blast
    with False have ba: "b <s a"
      by (simp add: word_sless_alt)
    have 1: "(sint a - sint b) dvd (sint (value_bits sb) - sint (value_bits sa))"
    proof -
      have "- (sint b - sint a) dvd (sint (value_bits sb) - sint (value_bits sa))"
        using dvd by (simp only: minus_dvd_iff)
      then show ?thesis by simp
    qed
    have 2: "sint a - sint b < 2 ^ 31"
      using small(1) by simp
    from reversed_steps [OF ba 1 small(2) 2 that(2)] have "map snd ?fwd = rev (map snd ?bwd)" .
    then show ?thesis by simp
  qed
  have map_single: "map snd (map (\<lambda>xy. ([fst xy], [snd xy])) xs) = map (\<lambda>y. [y]) (map snd xs)"
    "map fst (map (\<lambda>xy. ([fst xy], [snd xy])) xs) = map (\<lambda>x. [x]) (map fst xs)"
    for xs :: "(int32_t \<times> fixed32_t) list"
    by (simp_all add: comp_def)
  show ?thesis
    unfolding calls_1 [OF m] calls_1 [OF m'] source_indices_def destination_indices_def
    using src dst by (auto simp: map_single rev_map simp del: map_map)
qed


theorem reversed_destination_exact_witness:
  "length (area_a \<lparr>area_a = [0 :: int32_t], area_b = [5]\<rparr>) = 1 \<and>
   length (area_b \<lparr>area_a = [0 :: int32_t], area_b = [5]\<rparr>) = 1 \<and>
   covers 1 \<lparr>area_a = [0], area_b = [5]\<rparr> \<lparr>area_a = [0], area_b = [5]\<rparr> \<and>
   \<bar>sint (5 :: int32_t) - sint (0 :: int32_t)\<bar> < 2 ^ 31 \<and>
   \<bar>sint (value_bits (Fixed 327680)) - sint (value_bits (Fixed 0))\<bar> < 2 ^ 31 \<and>
   (sint (5 :: int32_t) - sint (0 :: int32_t)) dvd
     (sint (value_bits (Fixed 327680)) - sint (value_bits (Fixed 0))) \<and>
   source_indices (scale_calls 1 \<lparr>area_a = [5], area_b = [0]\<rparr>
       \<lparr>area_a = [Fixed 0], area_b = [Fixed 327680]\<rparr> \<lparr>area_a = [0], area_b = [5]\<rparr>) =
     rev (source_indices (scale_calls 1 \<lparr>area_a = [0], area_b = [5]\<rparr>
       \<lparr>area_a = [Fixed 0], area_b = [Fixed 327680]\<rparr> \<lparr>area_a = [0], area_b = [5]\<rparr>)) \<and>
   source_indices (scale_calls 1 \<lparr>area_a = [0], area_b = [5]\<rparr>
       \<lparr>area_a = [Fixed 0], area_b = [Fixed 327680]\<rparr> \<lparr>area_a = [0], area_b = [5]\<rparr>) =
     [[Fixed 0], [Fixed 65536], [Fixed 131072], [Fixed 196608], [Fixed 262144]]"
proof -
  have c: "covers 1 \<lparr>area_a = [0], area_b = [5]\<rparr> \<lparr>area_a = [0], area_b = [5]\<rparr>"
    by (simp add: covers_def)
  have d: "(sint (5 :: int32_t) - sint (0 :: int32_t)) dvd
     (sint (value_bits (Fixed 327680)) - sint (value_bits (Fixed 0)))"
    by simp
  have run: "source_indices (scale_calls 1 \<lparr>area_a = [0], area_b = [5]\<rparr>
       \<lparr>area_a = [Fixed 0], area_b = [Fixed 327680]\<rparr> \<lparr>area_a = [0], area_b = [5]\<rparr>) =
     [[Fixed 0], [Fixed 65536], [Fixed 131072], [Fixed 196608], [Fixed 262144]]"
    by code_simp
  from reversed_destination_exact [OF _ _ c _ _ d] c d run show ?thesis
    by simp
qed

text \<open>
  C3 as stated fails when the division for \<open>delta\<close> leaves a remainder: for the
  destination \<open>[0,6)\<close> and the source \<open>[0,2)\<close>, \<open>delta\<close> is \<open>10922\<close> units and the remainder
  is \<open>4\<close>; the call with the destination reversed starts from the far end of the source and
  every source index is \<open>4\<close> units beyond its mirror image. The elements sampled differ as
  well: \<open>0,0,0,0,1,1\<close> forward and \<open>1,1,1,0,0,0\<close> reversed.
\<close>

theorem reversed_destination_inexact:
  "source_indices (scale_calls 1 \<lparr>area_a = [6], area_b = [0]\<rparr>
       \<lparr>area_a = [fixed 0], area_b = [fixed 2]\<rparr> \<lparr>area_a = [0], area_b = [6]\<rparr>) \<noteq>
   rev (source_indices (scale_calls 1 \<lparr>area_a = [0], area_b = [6]\<rparr>
       \<lparr>area_a = [fixed 0], area_b = [fixed 2]\<rparr> \<lparr>area_a = [0], area_b = [6]\<rparr>))"
proof -
  have "source_indices (scale_calls 1 \<lparr>area_a = [6], area_b = [0]\<rparr>
       \<lparr>area_a = [fixed 0], area_b = [fixed 2]\<rparr> \<lparr>area_a = [0], area_b = [6]\<rparr>) =
     [[Fixed 54614], [Fixed 43692], [Fixed 32770], [Fixed 21848], [Fixed 10926], [Fixed 4]]"
    by code_simp
  moreover have "source_indices (scale_calls 1 \<lparr>area_a = [0], area_b = [6]\<rparr>
       \<lparr>area_a = [fixed 0], area_b = [fixed 2]\<rparr> \<lparr>area_a = [0], area_b = [6]\<rparr>) =
     [[Fixed 0], [Fixed 10922], [Fixed 21844], [Fixed 32766], [Fixed 43688], [Fixed 54610]]"
    by code_simp
  ultimately show ?thesis by simp
qed

lemma sampled_elements_differ:
  "map (map (sint \<circ> to_int)) (source_indices (scale_calls 1 \<lparr>area_a = [6], area_b = [0]\<rparr>
       \<lparr>area_a = [fixed 0], area_b = [fixed 2]\<rparr> \<lparr>area_a = [0], area_b = [6]\<rparr>)) =
     [[1], [1], [1], [0], [0], [0]] \<and>
   map (map (sint \<circ> to_int)) (source_indices (scale_calls 1 \<lparr>area_a = [0], area_b = [6]\<rparr>
       \<lparr>area_a = [fixed 0], area_b = [fixed 2]\<rparr> \<lparr>area_a = [0], area_b = [6]\<rparr>)) =
     [[0], [0], [0], [0], [1], [1]]"
  by code_simp

section \<open>Copying with the processor \<^verbatim>\<open>write\<close>\<close>











section \<open>The decimal constructor\<close>

lemma SCALE_value: "SCALE = 107381"
  by (simp add: SCALE_def signed_divide_int_def)

text \<open>
  C9: \<^verbatim>\<open>fixed32(3, 5)\<close>, \<^verbatim>\<open>fixed32(3, 50)\<close> and \<^verbatim>\<open>fixed32(3, 500)\<close> are the same number,
  since \<open>5\<close>, \<open>50\<close> and \<open>500\<close> are all scaled to the numerator \<open>5000\<close>, and that number is
  3.5 up to the rounding of the scale factor: its representation is \<open>114689\<close>, one unit
  of \<open>2\<^sup>-\<^sup>1\<^sup>5\<close> above \<open>3.5 * 2\<^sup>1\<^sup>5 = 114688\<close>.
\<close>

theorem fixed32_3_5_approx:
  "fixed32 3 5 = Fixed 114689 \<and> fixed32 3 50 = Fixed 114689 \<and> fixed32 3 500 = Fixed 114689 \<and>
   \<bar>2 * sint (value_bits (fixed32 3 5)) - 7 * 2 ^ precision\<bar> \<le> 2"
  by (simp add: fixed32_def fixed_def SCALE_value)

end
